theory Spec2Isabelle
  imports Complex_Main
begin

section \<open>Python values, errors and string operations\<close>

text \<open>
  A read is a Python \<open>str\<close> over the nucleotide alphabet; counts and degrees are
  Python's unbounded integers.  Every exception or process exit of the source is a
  value of \<open>py_error\<close>, and a function that may raise returns \<open>py_error + 'a\<close>.
\<close>

type_synonym read = string

datatype py_error =
    ValueError
  | IndexError
  | UnboundLocalError
  | NetworkXPointlessConcept
  | SystemExit int

text \<open>\<open>s[i]\<close> for a string \<open>s\<close>: the indices \<open>0 .. len(s) - 1\<close> count from the
  front, the indices \<open>-len(s) .. -1\<close> from the back, and every other index raises
  \<open>IndexError\<close>.\<close>

definition py_index :: "'a list \<Rightarrow> int \<Rightarrow> py_error + 'a" where
  "py_index s i =
     (if 0 \<le> i \<and> i < int (length s) then Inr (s ! nat i)
      else if - int (length s) \<le> i \<and> i < 0 then Inr (s ! nat (int (length s) + i))
      else Inl IndexError)"

text \<open>A slice bound of Python: negative bounds count from the end, and every bound is
  clipped to \<open>0 .. len(s)\<close>.\<close>

definition py_bound :: "nat \<Rightarrow> int \<Rightarrow> nat" where
  "py_bound n i = (if i < 0 then nat (max (int n + i) 0) else min (nat i) n)"

text \<open>\<open>s[a:b]\<close> and \<open>s[a:]\<close>; slicing never raises.\<close>

definition py_slice :: "'a list \<Rightarrow> int \<Rightarrow> int \<Rightarrow> 'a list" where
  "py_slice s a b =
     (let lo = py_bound (length s) a; hi = py_bound (length s) b
      in take (hi - lo) (drop lo s))"

definition py_slice_from :: "'a list \<Rightarrow> int \<Rightarrow> 'a list" where
  "py_slice_from s a = drop (py_bound (length s) a) s"

text \<open>
  \<open>editdistance.eval\<close> of the external \<open>editdistance\<close> package: the Levenshtein
  distance (insertions, deletions and substitutions of one character, each of cost 1).
\<close>

fun editdistance :: "'a list \<Rightarrow> 'a list \<Rightarrow> nat" where
  "editdistance [] ys = length ys"
| "editdistance (x # xs) [] = Suc (length xs)"
| "editdistance (x # xs) (y # ys) =
     min (min (editdistance xs (y # ys) + 1) (editdistance (x # xs) ys + 1))
         (editdistance xs ys + (if x = y then 0 else 1))"

section \<open>Rows of the result tables\<close>

text \<open>
  The six-element list \<open>[read1, read1_frequency, read1_degree, read2, read2_frequency,
  read2_degree]\<close> that the extractors build, under the column names of the dataframes.
\<close>

record line =
  StartRead :: read
  StartReadCount :: int
  StartDegree :: int
  EndRead :: read
  EndReadCount :: int
  EndDegree :: int

text \<open>The ten-element list returned by \<open>err_type_classification\<close>: the six fields of the
  line and the four annotations.\<close>

record new_line = line +
  ErrorType :: string
  ErrorPosition :: int
  StartErrKmer :: string
  EndErrKmer :: string

text \<open>A row of a genuine or ambiguous table: annotated in edit-distance-1 mode, the plain
  line otherwise.\<close>

datatype row = Plain line | Annotated new_line

fun row_line :: "row \<Rightarrow> line" where
  "row_line (Plain l) = l"
| "row_line (Annotated a) = line.truncate a"

section \<open>err\_type\_classification\<close>

text \<open>
  The scan for the first mismatching index, \<open>for index in range(f_len)\<close> with
  \<open>break\<close> at the first mismatch; \<open>position\<close> stays \<open>-1\<close> when the loop ends without
  one.  The first argument is the index of the heads of the two remaining suffixes.
\<close>

fun scan_position :: "nat \<Rightarrow> 'a list \<Rightarrow> 'a list \<Rightarrow> int" where
  "scan_position index (x # xs) (y # ys) =
     (if x = y then scan_position (Suc index) xs ys else int index)"
| "scan_position index _ _ = -1"

text \<open>The same scan in the branches for reads of different lengths, which also counts
  the agreeing positions in \<open>num\<close>; it runs over the shorter read.\<close>

fun scan_num :: "nat \<Rightarrow> nat \<Rightarrow> 'a list \<Rightarrow> 'a list \<Rightarrow> int \<times> nat" where
  "scan_num index num (x # xs) (y # ys) =
     (if x = y then scan_num (Suc index) (Suc num) xs ys else (int index, num))"
| "scan_num index num _ _ = (-1, num)"

definition bind :: "py_error + 'a \<Rightarrow> ('a \<Rightarrow> py_error + 'b) \<Rightarrow> py_error + 'b" where
  "bind m f = (case m of Inl e \<Rightarrow> Inl e | Inr v \<Rightarrow> f v)"

definition annotate :: "line \<Rightarrow> string \<Rightarrow> int \<Rightarrow> string \<Rightarrow> string \<Rightarrow> new_line" where
  "annotate line errorType position f_kmer s_kmer =
     line.extend line
       (new_line.fields errorType position f_kmer s_kmer)"

text \<open>Branch \<open>f_len == s_len\<close>.\<close>

definition classify_equal :: "line \<Rightarrow> py_error + new_line" where
  "classify_equal line =
     (let read1 = StartRead line; read2 = EndRead line;
          f_len = int (length read1);
          position = scan_position 0 read1 read2
      in bind (py_index read1 position) (\<lambda>first.
         bind (py_index read2 position) (\<lambda>second.
           let (f_kmer, s_kmer) =
             (if position = 0 then (py_slice read1 0 2, py_slice read2 0 2)
              else if position = f_len then (py_slice_from read1 (-2), py_slice_from read2 (-2))
              else (py_slice read1 (position - 1) (position + 2),
                    py_slice read2 (position - 1) (position + 2)))
           in Inr (annotate line ([first] @ ''-'' @ [second]) position f_kmer s_kmer))))"

text \<open>Branch \<open>f_len < s_len\<close>: the child has one base more than the parent.\<close>

definition classify_shorter :: "line \<Rightarrow> py_error + new_line" where
  "classify_shorter line =
     (let read1 = StartRead line; read2 = EndRead line;
          f_len = int (length read1);
          (pos0, num) = scan_num 0 0 read1 read2;
          position = (if int num = f_len then f_len else pos0)
      in bind (py_index read2 position) (\<lambda>second.
         bind
           (if position = 0 then
              bind (py_index read1 0) (\<lambda>c. Inr (''X'' @ [c], py_slice read2 0 2))
            else if position = f_len then
              bind (py_index read1 (-1)) (\<lambda>c. Inr ([c] @ ''X'', py_slice_from read2 (-2)))
            else
              bind (py_index read1 (position - 1)) (\<lambda>c.
              bind (py_index read1 position) (\<lambda>d.
                Inr ([c] @ ''X'' @ [d], py_slice read2 (position - 1) (position + 2)))))
           (\<lambda>(f_kmer, s_kmer).
              Inr (annotate line (''X'' @ ''-'' @ [second]) position f_kmer s_kmer))))"

text \<open>Branch \<open>f_len > s_len\<close>: the child has one base fewer than the parent.\<close>

definition classify_longer :: "line \<Rightarrow> py_error + new_line" where
  "classify_longer line =
     (let read1 = StartRead line; read2 = EndRead line;
          s_len = int (length read2);
          (pos0, num) = scan_num 0 0 read1 read2;
          position = (if int num = s_len then s_len else pos0)
      in bind (py_index read1 position) (\<lambda>first.
         bind
           (if position = 0 then
              bind (py_index read2 0) (\<lambda>c. Inr (py_slice read1 0 2, ''X'' @ [c]))
            else if position = s_len then
              bind (py_index read2 (-1)) (\<lambda>c. Inr (py_slice_from read1 (-2), [c] @ ''X''))
            else
              bind (py_index read2 (position - 1)) (\<lambda>c.
              bind (py_index read2 position) (\<lambda>d.
                Inr (py_slice read1 (position - 1) (position + 2), [c] @ ''X'' @ [d]))))
           (\<lambda>(f_kmer, s_kmer).
              Inr (annotate line ([first] @ ''-'' @ ''X'') position f_kmer s_kmer))))"

text \<open>
  The whole function: \<open>ValueError\<close> unless the edit distance is one, then one of the three
  branches by the lengths of the reads.  The argument is not changed: the result is
  a new list.
\<close>

definition err_type_classification :: "line \<Rightarrow> py_error + new_line" where
  "err_type_classification line =
     (let f_len = length (StartRead line); s_len = length (EndRead line);
          dis = editdistance (StartRead line) (EndRead line)
      in if dis = 1 then
           (if f_len = s_len then classify_equal line
            else if f_len < s_len then classify_shorter line
            else classify_longer line)
         else Inl ValueError)"

text \<open>
  The flanking context as the specification words it: the first two characters when the
  mismatch is at index 0, the last two when it is at the last index, and otherwise the
  three characters centred on it.
\<close>

definition spec_kmer :: "string \<Rightarrow> nat \<Rightarrow> string" where
  "spec_kmer r p =
     (if p = 0 then take 2 r
      else if p = length r - 1 then drop (length r - 2) r
      else [r ! (p - 1), r ! p, r ! (p + 1)])"

section \<open>The read graph\<close>

text \<open>
  The configuration values that the functions below read from \<open>self.config\<close>.
\<close>

record config =
  high_freq_thre :: int
  max_error_freq :: int
  ambiguous_error_node_degree :: int
  verbose :: bool

text \<open>
  A NetworkX graph as the extractors use it: \<open>list(graph.nodes)\<close> in insertion order, the
  node attributes \<open>count\<close> and \<open>flag\<close>, and \<open>graph.neighbors(n)\<close> in insertion order.
  The graph is simple (no edge from a node to itself, no multi-edges), so the degree of a node is the
  number of its neighbours.  Every node of a graph built by \<open>generate_graph\<close> carries both
  attributes, so the attribute lookups are total.
\<close>

record graph =
  nodes :: "read list"
  count :: "read \<Rightarrow> int"
  flag :: "read \<Rightarrow> bool"
  neighbors :: "read \<Rightarrow> read list"

definition degree :: "graph \<Rightarrow> read \<Rightarrow> int" where
  "degree g n = int (length (neighbors g n))"

text \<open>\<open>graph.edges()\<close>: every node in order with those of its neighbours that were not
  reported before, so that each undirected edge appears once.\<close>

fun edges_from :: "graph \<Rightarrow> read list \<Rightarrow> read list \<Rightarrow> (read \<times> read) list" where
  "edges_from g seen [] = []"
| "edges_from g seen (n # ns) =
     map (Pair n) (filter (\<lambda>nbr. nbr \<notin> set seen) (neighbors g n)) @ edges_from g (n # seen) ns"

definition edges :: "graph \<Rightarrow> (read \<times> read) list" where
  "edges g = edges_from g [] (nodes g)"

section \<open>extract\_genuine\_ambi\_errs\_subgraph\<close>

text \<open>\<open>newline = self.err_type_classification(line)\<close> when \<open>edit_dis == 1\<close>, the line
  itself otherwise.\<close>

definition newline_of :: "int \<Rightarrow> line \<Rightarrow> py_error + row" where
  "newline_of edit_dis line =
     (if edit_dis = 1 then bind (err_type_classification line) (\<lambda>newline. Inr (Annotated newline))
      else Inr (Plain line))"

text \<open>The loop over \<open>node_neis\<close> that collects \<open>nei2count\<close>, the neighbours of count at
  least \<open>high_freq_thre\<close> with their counts; \<open>high_num\<close> is its length.\<close>

definition nei2count :: "config \<Rightarrow> graph \<Rightarrow> read list \<Rightarrow> (read \<times> int) list" where
  "nei2count cfg g node_neis =
     map (\<lambda>nei. (nei, count g nei))
       (filter (\<lambda>nei. count g nei \<ge> high_freq_thre cfg) node_neis)"

text \<open>
  The loop of the ambiguous branch over \<open>nei2count\<close>.  The degree written into each line
  is \<open>sub_graph.degree[nei]\<close>, where \<open>nei\<close> is the variable of the preceding loop over
  \<open>node_neis\<close>: after that loop it holds the last neighbour of the node.  It is \<open>None\<close>
  when the node has no neighbour, and then \<open>nei2count\<close> is empty and \<open>nei\<close> is not read.
\<close>

fun ambiguous_lines ::
  "config \<Rightarrow> int \<Rightarrow> graph \<Rightarrow> read option \<Rightarrow> read \<Rightarrow> (read \<times> int) list \<Rightarrow> py_error + row list" where
  "ambiguous_lines cfg edit_dis g nei node [] = Inr []"
| "ambiguous_lines cfg edit_dis g nei node ((cre_nei, cur_nei_count) # rest) =
     (if cur_nei_count \<ge> high_freq_thre cfg then
        (case nei of
           None \<Rightarrow> Inl UnboundLocalError
         | Some last_nei \<Rightarrow>
             bind (newline_of edit_dis
                     \<lparr>StartRead = cre_nei, StartReadCount = cur_nei_count,
                      StartDegree = degree g last_nei,
                      EndRead = node, EndReadCount = count g node,
                      EndDegree = degree g node\<rparr>) (\<lambda>newline.
             bind (ambiguous_lines cfg edit_dis g nei node rest) (\<lambda>tmp_lst.
               Inr (newline # tmp_lst))))
      else ambiguous_lines cfg edit_dis g nei node rest)"

definition loop_variable :: "'a list \<Rightarrow> 'a option" where
  "loop_variable xs = (if xs = [] then None else Some (last xs))"

text \<open>
  The body of \<open>for node in nodes_lst\<close> for a node that passes the test
  \<open>node_count <= max_error_freq and not flag\<close>: the rows appended to \<open>gen_lst\<close> and the
  groups appended to \<open>ambi_lst\<close>.
\<close>

definition classify :: "config \<Rightarrow> int \<Rightarrow> graph \<Rightarrow> read \<Rightarrow> py_error + (row list \<times> row list list)" where
  "classify cfg edit_dis g node =
     (let node_count = count g node; node_degree = degree g node;
          node_neis = neighbors g node
      in if node_degree = 1 then
           (case node_neis of
              [] \<Rightarrow> Inl IndexError
            | nei # _ \<Rightarrow>
                if count g nei \<ge> high_freq_thre cfg then
                  bind (newline_of edit_dis
                          \<lparr>StartRead = nei, StartReadCount = count g nei,
                           StartDegree = degree g nei,
                           EndRead = node, EndReadCount = node_count,
                           EndDegree = node_degree\<rparr>) (\<lambda>newline.
                    Inr ([newline], []))
                else Inr ([], []))
         else if node_degree \<le> ambiguous_error_node_degree cfg then
           (let n2c = nei2count cfg g node_neis; high_num = length n2c
            in if high_num = 1 then
                 (case sort_key (\<lambda>x. - snd x) n2c of
                    [] \<Rightarrow> Inl IndexError
                  | (first_nei, first_nei_count) # _ \<Rightarrow>
                      if first_nei_count \<ge> high_freq_thre cfg then
                        bind (newline_of edit_dis
                                \<lparr>StartRead = first_nei, StartReadCount = first_nei_count,
                                 StartDegree = degree g first_nei,
                                 EndRead = node, EndReadCount = node_count,
                                 EndDegree = node_degree\<rparr>) (\<lambda>newline.
                          Inr ([newline], []))
                      else Inr ([], []))
               else
                 bind (ambiguous_lines cfg edit_dis g (loop_variable node_neis) node n2c)
                   (\<lambda>tmp_lst. Inr ([], if tmp_lst \<noteq> [] then [tmp_lst] else [])))
         else Inr ([], []))"

text \<open>One iteration of \<open>for node in nodes_lst\<close>: the state is \<open>gen_lst\<close>, \<open>ambi_lst\<close> and the
  subgraph, whose \<open>flag\<close> of the node is set after the node has been classified.\<close>

definition visit ::
  "config \<Rightarrow> int \<Rightarrow> read \<Rightarrow> row list \<times> row list list \<times> graph \<Rightarrow>
   py_error + (row list \<times> row list list \<times> graph)" where
  "visit cfg edit_dis node st =
     (case st of (gen_lst, ambi_lst, g) \<Rightarrow>
        if count g node \<le> max_error_freq cfg \<and> \<not> flag g node then
          bind (classify cfg edit_dis g node) (\<lambda>(gen, ambi).
            Inr (gen_lst @ gen, ambi_lst @ ambi, g\<lparr>flag := (flag g)(node := True)\<rparr>))
        else Inr (gen_lst, ambi_lst, g))"

fun visit_all ::
  "config \<Rightarrow> int \<Rightarrow> read list \<Rightarrow> row list \<times> row list list \<times> graph \<Rightarrow>
   py_error + (row list \<times> row list list \<times> graph)" where
  "visit_all cfg edit_dis [] st = Inr st"
| "visit_all cfg edit_dis (node # rest) st =
     bind (visit cfg edit_dis node st) (visit_all cfg edit_dis rest)"

text \<open>
  The function, for \<open>sub_graph = sub_graphs[ii]\<close>: it returns \<open>[gen_lst, ambi_lst]\<close>, and the
  subgraph with the flags it has set is returned with them.
\<close>

definition extract_genuine_ambi_errs_subgraph ::
  "config \<Rightarrow> int \<Rightarrow> graph \<Rightarrow> py_error + (row list \<times> row list list \<times> graph)" where
  "extract_genuine_ambi_errs_subgraph cfg edit_dis sub_graph =
     (if length (edges sub_graph) > 0
      then visit_all cfg edit_dis (nodes sub_graph) ([], [], sub_graph)
      else Inr ([], [], sub_graph))"

text \<open>
  The classification of one node as the specification words it, on the parent and child
  reads alone: a genuine error with its parent, an ambiguous group with one candidate
  parent per neighbour of high frequency, or nothing.
\<close>

datatype outcome = Genuine read read | Ambiguous "(read \<times> read) list" | Unclassified

definition spec_classify :: "config \<Rightarrow> graph \<Rightarrow> read \<Rightarrow> outcome" where
  "spec_classify cfg g node =
     (let high = filter (\<lambda>nei. count g nei \<ge> high_freq_thre cfg) (neighbors g node)
      in if degree g node = 1 then
           (if count g (hd (neighbors g node)) \<ge> high_freq_thre cfg
            then Genuine (hd (neighbors g node)) node else Unclassified)
         else if 1 < degree g node \<and> degree g node \<le> ambiguous_error_node_degree cfg then
           (if length high = 1 then Genuine (hd high) node
            else if length high > 1 then Ambiguous (map (\<lambda>nei. (nei, node)) high)
            else Unclassified)
         else Unclassified)"

fun genuine_of :: "outcome \<Rightarrow> (read \<times> read) list" where
  "genuine_of (Genuine parent child) = [(parent, child)]"
| "genuine_of _ = []"

fun ambiguous_of :: "outcome \<Rightarrow> (read \<times> read) list list" where
  "ambiguous_of (Ambiguous candidates) = [candidates]"
| "ambiguous_of _ = []"

definition parent_child :: "row \<Rightarrow> read \<times> read" where
  "parent_child r = (StartRead (row_line r), EndRead (row_line r))"

definition eligible :: "config \<Rightarrow> graph \<Rightarrow> read list" where
  "eligible cfg g = filter (\<lambda>n. count g n \<le> max_error_freq cfg \<and> \<not> flag g n) (nodes g)"

text \<open>The child read of a row, and the children of the two result lists of a pass.\<close>

definition child :: "row \<Rightarrow> read" where
  "child r = EndRead (row_line r)"

definition genuine_children :: "row list \<Rightarrow> read set" where
  "genuine_children gen_lst = set (map child gen_lst)"

definition ambiguous_children :: "row list list \<Rightarrow> read set" where
  "ambiguous_children ambi_lst = set (concat (map (map child) ambi_lst))"

definition filtered_by_count :: "config \<Rightarrow> graph \<Rightarrow> read set" where
  "filtered_by_count cfg g = {n \<in> set (nodes g). count g n > max_error_freq cfg}"

definition unclassified :: "config \<Rightarrow> graph \<Rightarrow> row list \<Rightarrow> row list list \<Rightarrow> read set" where
  "unclassified cfg g gen_lst ambi_lst =
     {n \<in> set (nodes g). count g n \<le> max_error_freq cfg \<and>
        n \<notin> genuine_children gen_lst \<and> n \<notin> ambiguous_children ambi_lst}"


text \<open>
  The contract of the graph construction in edit-distance-1 mode, which
  \<open>err_type_classification\<close> relies on: every edge joins two non-empty reads at edit
  distance 1.
\<close>

definition adjacent_reads :: "graph \<Rightarrow> bool" where
  "adjacent_reads g \<longleftrightarrow>
     (\<forall>n \<in> set (nodes g). \<forall>m \<in> set (neighbors g n).
        editdistance m n = 1 \<and> m \<noteq> [] \<and> n \<noteq> [])"

section \<open>extract\_isolated\_negatives\<close>

text \<open>
  \<open>networkx.is_connected\<close>: it raises \<open>NetworkXPointlessConcept\<close> on the graph without
  nodes, and otherwise tells whether the breadth-first search from the first node reaches
  every node.  The search is run in rounds, each adding the neighbours of the nodes found
  so far; after as many rounds as there are nodes nothing more can be found.
\<close>

definition expand :: "graph \<Rightarrow> read list \<Rightarrow> read list" where
  "expand g seen = remdups (seen @ concat (map (neighbors g) seen))"

definition plain_bfs :: "graph \<Rightarrow> read \<Rightarrow> read list" where
  "plain_bfs g source = ((expand g) ^^ length (nodes g)) [source]"

definition is_connected :: "graph \<Rightarrow> py_error + bool" where
  "is_connected g =
     (case nodes g of
        [] \<Rightarrow> Inl NetworkXPointlessConcept
      | source # _ \<Rightarrow> Inr (length (plain_bfs g source) = length (nodes g)))"

text \<open>\<open>networkx.isolates\<close>: the nodes of degree 0.\<close>

definition isolates_of :: "graph \<Rightarrow> read list" where
  "isolates_of g = filter (\<lambda>n. degree g n = 0) (nodes g)"

text \<open>
  The function returns the rows \<open>[k, k_count, k_degree]\<close> of \<open>negative_df\<close>.  The local
  variable \<open>isolates\<close> is assigned only in the branch \<open>not nx.is_connected(graph)\<close>; the
  statement after the branches evaluates \<open>len(isolates)\<close>.  The name of the csv file is
  assigned only for \<open>edit_dis\<close> 1 and 2 and is read when \<open>verbose\<close> is set.
\<close>

definition extract_isolated_negatives ::
  "config \<Rightarrow> graph \<Rightarrow> int \<Rightarrow> py_error + (read \<times> int \<times> int) list" where
  "extract_isolated_negatives cfg g edit_dis =
     bind (is_connected g) (\<lambda>connected.
       if \<not> connected then
         (let isolates = isolates_of g;
              negative_df = map (\<lambda>k. (k, count g k, degree g k))
                              (filter (\<lambda>k. count g k \<ge> high_freq_thre cfg) isolates)
          in if verbose cfg \<and> edit_dis \<noteq> 1 \<and> edit_dis \<noteq> 2 then Inl UnboundLocalError
             else Inr negative_df)
       else Inl UnboundLocalError)"

section \<open>generate\_graph\<close>

text \<open>\<open>Counter(total_seqs).items()\<close>: every distinct read with its number of occurrences,
  in the order of first occurrence.\<close>

definition first_occurrences :: "'a list \<Rightarrow> 'a list" where
  "first_occurrences xs = rev (remdups (rev xs))"

definition Counter :: "read list \<Rightarrow> (read \<times> int) list" where
  "Counter total_seqs =
     map (\<lambda>r. (r, int (count_list total_seqs r))) (first_occurrences total_seqs)"

text \<open>
  \<open>real_ed1_seqs\<close> and \<open>real_ed2_seqs\<close>: the members of the shared universe among the
  enumerated neighbours of the read, each paired with the read.  The enumerators
  \<open>enumerate_ed1_seqs\<close> and \<open>enumerate_ed2_seqs\<close> are functions of the module
  \<open>noise2read.utils\<close>, not of \<open>data_generation.py\<close>, and are parameters here; a Python
  set is a list without repetition.
\<close>

definition real_ed1_seqs :: "(read \<Rightarrow> read list) \<Rightarrow> read list \<Rightarrow> read \<Rightarrow> (read \<times> read) list" where
  "real_ed1_seqs enumerate_ed1_seqs total_seqs read =
     (let possible_ed1 = enumerate_ed1_seqs read;
          real_seqs = filter (\<lambda>s. s \<in> set possible_ed1) total_seqs
      in zip (replicate (length real_seqs) read) real_seqs)"

definition real_ed2_seqs :: "(read \<Rightarrow> read list) \<Rightarrow> read list \<Rightarrow> read \<Rightarrow> (read \<times> read) list" where
  "real_ed2_seqs enumerate_ed2_seqs low_seqs read =
     (let possible_ed2 = remdups (enumerate_ed2_seqs read);
          real_ed2_seqs = filter (\<lambda>s. s \<in> set low_seqs) possible_ed2
      in zip (replicate (length real_ed2_seqs) read) real_ed2_seqs)"

text \<open>\<open>graph.add_edges_from\<close>: each end of an edge becomes a neighbour of the other end,
  once.  Both ends of every edge found are reads of the dataset and hence nodes already.\<close>

definition add_neighbor :: "graph \<Rightarrow> read \<Rightarrow> read \<Rightarrow> graph" where
  "add_neighbor g u v =
     (if v \<in> set (neighbors g u) then g
      else g\<lparr>neighbors := (neighbors g)(u := neighbors g u @ [v])\<rparr>)"

definition add_edge :: "graph \<Rightarrow> read \<times> read \<Rightarrow> graph" where
  "add_edge g e = (case e of (u, v) \<Rightarrow> add_neighbor (add_neighbor g u v) v u)"

definition add_edges_from :: "graph \<Rightarrow> (read \<times> read) list \<Rightarrow> graph" where
  "add_edges_from g edges_lst = foldl add_edge g edges_lst"

text \<open>What the run hands to the worker pool: the neighbour search of one read.\<close>

datatype event = Dispatch read

text \<open>
  \<open>generate_graph\<close> from the parsed records \<open>(id, sequence)\<close> on.  The result is the trace
  of the tasks handed to the pool, and either the exit of the process or the graph with
  \<open>unique_seqs\<close> (for \<open>edit_dis == 1\<close> the source returns \<open>seq_lens_set\<close> and
  \<open>seqs2id_dict\<close> with them).  The progress bar, the logging and the export of the graph
  are left out.
\<close>

definition generate_graph ::
  "(read \<Rightarrow> read list) \<Rightarrow> (read \<Rightarrow> read list) \<Rightarrow> config \<Rightarrow> (string \<times> read) list \<Rightarrow> int \<Rightarrow>
   event list \<times> (py_error + graph \<times> read list)" where
  "generate_graph enumerate_ed1_seqs enumerate_ed2_seqs cfg record_iterator edit_dis =
     (let total_seqs = map snd record_iterator;
          unique_seqs = first_occurrences total_seqs;
          read_count = Counter total_seqs;
          graph = \<lparr>nodes = map fst read_count,
                   count = (\<lambda>read. int (count_list total_seqs read)),
                   flag = (\<lambda>read. False),
                   neighbors = (\<lambda>read. [])\<rparr>;
          high_freq = map fst (filter (\<lambda>(read, frequency). frequency \<ge> high_freq_thre cfg) read_count);
          low_freq = map fst (filter (\<lambda>(read, frequency). \<not> frequency \<ge> high_freq_thre cfg) read_count)
      in if length high_freq = 0 then ([], Inl (SystemExit 1))
         else if edit_dis = 1 then
           (let edges_lst = concat (map (real_ed1_seqs enumerate_ed1_seqs unique_seqs) high_freq)
            in (map Dispatch high_freq,
                Inr (if length edges_lst > 0 then add_edges_from graph edges_lst else graph,
                     unique_seqs)))
         else if edit_dis = 2 then
           (let edges_lst = concat (map (real_ed2_seqs enumerate_ed2_seqs low_freq) high_freq)
            in (map Dispatch high_freq,
                Inr (if length edges_lst > 0 then add_edges_from graph edges_lst else graph,
                     unique_seqs)))
         else ([], Inl UnboundLocalError))"

text \<open>
  The candidate universe and the edges as the specification words them: the whole set of
  unique reads in edit-distance-1 mode, the reads of count below the threshold in
  edit-distance-2 mode; an edge pairs a read of count at least the threshold with a
  member of the universe among its enumerated neighbours.
\<close>

definition spec_universe :: "config \<Rightarrow> read list \<Rightarrow> int \<Rightarrow> read set" where
  "spec_universe cfg total_seqs edit_dis =
     (if edit_dis = 1 then set total_seqs
      else {s \<in> set total_seqs. int (count_list total_seqs s) < high_freq_thre cfg})"

definition spec_edge ::
  "(read \<Rightarrow> read list) \<Rightarrow> config \<Rightarrow> read list \<Rightarrow> int \<Rightarrow> read \<Rightarrow> read \<Rightarrow> bool" where
  "spec_edge enumerator cfg total_seqs edit_dis query s \<longleftrightarrow>
     query \<in> set total_seqs \<and> int (count_list total_seqs query) \<ge> high_freq_thre cfg \<and>
     s \<in> set (enumerator query) \<and> s \<in> spec_universe cfg total_seqs edit_dis"

text \<open>
  Modelled from the spec: \<open>enumerate_ed1_seqs\<close> of the module \<open>noise2read.utils\<close>, whose
  code is not part of \<open>data_generation.py\<close>.  For every position, the read with the
  symbol at that position replaced by every other symbol of the alphabet
  \<open>A, C, G, T\<close>.
\<close>

fun enumerate_ed1_seqs :: "read \<Rightarrow> read list" where
  "enumerate_ed1_seqs [] = []"
| "enumerate_ed1_seqs (c # cs) =
     map (\<lambda>b. b # cs) (filter (\<lambda>b. b \<noteq> c) ''ACGT'') @ map ((#) c) (enumerate_ed1_seqs cs)"

text \<open>
  Modelled from the spec: \<open>enumerate_ed2_seqs\<close> of the module \<open>noise2read.utils\<close>, whose
  code is not part of \<open>data_generation.py\<close>.  For every pair of distinct positions, the
  read with the symbols at both positions replaced by other symbols of the alphabet.
\<close>

fun enumerate_ed2_seqs :: "read \<Rightarrow> read list" where
  "enumerate_ed2_seqs [] = []"
| "enumerate_ed2_seqs (c # cs) =
     concat (map (\<lambda>b. map ((#) b) (enumerate_ed1_seqs cs)) (filter (\<lambda>b. b \<noteq> c) ''ACGT'')) @
     map ((#) c) (enumerate_ed2_seqs cs)"

section \<open>extract\_umi\_genuine\_errs\<close>

text \<open>
  The score \<open>tt = nei_degree * 0.5 + nei_count * 0.5\<close> of a neighbour.  Python computes
  it in double-precision floating point.  For a degree and a count from 0 to below
  \<open>2^52\<close> the conversions to float, the two products and the sum are exact, and the
  score is the rational number below; \<open>float_exact\<close> states this bound for the
  neighbours of the nodes of a subgraph, and the statements about the score are made
  under it.
\<close>

definition score :: "graph \<Rightarrow> read \<Rightarrow> rat" where
  "score g nei = of_int (degree g nei) * (1 / 2) + of_int (count g nei) * (1 / 2)"

definition float_exact :: "graph \<Rightarrow> bool" where
  "float_exact g \<longleftrightarrow>
     (\<forall>node \<in> set (nodes g). \<forall>nei \<in> set (neighbors g node).
        0 \<le> count g nei \<and> count g nei < 2 ^ 52 \<and> degree g nei < 2 ^ 52)"

text \<open>The list \<open>nei_degree_count\<close> of the triples \<open>(nei, tt, nei_count)\<close> after
  \<open>sort(key=lambda x: x[1], reverse=True)\<close>: by descending score, and stable.\<close>

definition nei_degree_count :: "graph \<Rightarrow> read \<Rightarrow> (read \<times> rat \<times> int) list" where
  "nei_degree_count g node =
     sort_key (\<lambda>x. - fst (snd x))
       (map (\<lambda>nei. (nei, score g nei, count g nei)) (neighbors g node))"

text \<open>One iteration of \<open>for node in nodes_lst\<close>; the state is \<open>genuine_df\<close> and the
  subgraph.\<close>

definition umi_visit ::
  "config \<Rightarrow> read \<Rightarrow> new_line list \<times> graph \<Rightarrow> py_error + (new_line list \<times> graph)" where
  "umi_visit cfg node st =
     (case st of (genuine_df, g) \<Rightarrow>
        let node_count = count g node; node_degree = degree g node
        in if node_degree \<ge> 1 \<and> node_degree \<le> 4 \<and> node_count \<le> max_error_freq cfg
              \<and> \<not> flag g node then
             (case nei_degree_count g node of
                [] \<Rightarrow> Inl IndexError
              | (first_nei, tt, first_nei_count) # _ \<Rightarrow>
                  if first_nei_count \<ge> high_freq_thre cfg then
                    bind (err_type_classification
                            \<lparr>StartRead = first_nei, StartReadCount = first_nei_count,
                             StartDegree = degree g first_nei,
                             EndRead = node, EndReadCount = node_count,
                             EndDegree = node_degree\<rparr>) (\<lambda>newline.
                      Inr (genuine_df @ [newline], g\<lparr>flag := (flag g)(node := True)\<rparr>))
                  else Inr (genuine_df, g))
           else Inr (genuine_df, g))"

fun umi_visit_all ::
  "config \<Rightarrow> read list \<Rightarrow> new_line list \<times> graph \<Rightarrow> py_error + (new_line list \<times> graph)" where
  "umi_visit_all cfg [] st = Inr st"
| "umi_visit_all cfg (node # rest) st = bind (umi_visit cfg node st) (umi_visit_all cfg rest)"

text \<open>The body of \<open>for sub_graph in subgraphs\<close>.\<close>

definition umi_subgraph ::
  "config \<Rightarrow> graph \<Rightarrow> new_line list \<Rightarrow> py_error + (new_line list \<times> graph)" where
  "umi_subgraph cfg sub_graph genuine_df =
     (if length (edges sub_graph) > 0
      then umi_visit_all cfg (nodes sub_graph) (genuine_df, sub_graph)
      else Inr (genuine_df, sub_graph))"

fun umi_subgraphs ::
  "config \<Rightarrow> graph list \<Rightarrow> new_line list \<Rightarrow> py_error + (new_line list \<times> graph list)" where
  "umi_subgraphs cfg [] genuine_df = Inr (genuine_df, [])"
| "umi_subgraphs cfg (sub_graph # rest) genuine_df =
     bind (umi_subgraph cfg sub_graph genuine_df) (\<lambda>(genuine_df1, sub_graph1).
     bind (umi_subgraphs cfg rest genuine_df1) (\<lambda>(genuine_df2, rest1).
       Inr (genuine_df2, sub_graph1 # rest1)))"

text \<open>
  The function from the list \<open>subgraphs\<close> of the connected components on: it returns
  \<open>genuine_df\<close>, and the subgraphs with the flags it has set are returned with it.
\<close>

definition extract_umi_genuine_errs ::
  "config \<Rightarrow> graph list \<Rightarrow> py_error + (new_line list \<times> graph list)" where
  "extract_umi_genuine_errs cfg subgraphs = umi_subgraphs cfg subgraphs []"

text \<open>The neighbour of maximal score, \<open>first_nei\<close>, when the node has a neighbour.\<close>

definition best_neighbor :: "graph \<Rightarrow> read \<Rightarrow> read option" where
  "best_neighbor g node =
     (case nei_degree_count g node of [] \<Rightarrow> None | (first_nei, _) # _ \<Rightarrow> Some first_nei)"

text \<open>
  What the claim says of an emitted row, for the subgraph \<open>g\<close> before the pass: its child
  was not flagged, has degree 1 to 4 and count at most \<open>max_error_freq\<close>, and its parent
  is the neighbour of maximal score, of count at least \<open>high_freq_thre\<close>.
\<close>

definition umi_row_ok :: "config \<Rightarrow> graph \<Rightarrow> new_line \<Rightarrow> bool" where
  "umi_row_ok cfg g row \<longleftrightarrow>
     \<not> flag g (EndRead row) \<and>
     1 \<le> degree g (EndRead row) \<and> degree g (EndRead row) \<le> 4 \<and>
     count g (EndRead row) \<le> max_error_freq cfg \<and>
     best_neighbor g (EndRead row) = Some (StartRead row) \<and>
     StartRead row \<in> set (neighbors g (EndRead row)) \<and>
     (\<forall>nei \<in> set (neighbors g (EndRead row)). score g nei \<le> score g (StartRead row)) \<and>
     count g (StartRead row) \<ge> high_freq_thre cfg"

text \<open>
  What the claim says of one pass over a subgraph \<open>g\<close>, for the rows it has emitted and
  the subgraph \<open>g'\<close> it has left: only flags change, a flag is set exactly for the nodes
  that were flagged before or are the child of an emitted row, and every emitted row is
  as above, for a node of the subgraph.
\<close>

definition umi_pass_ok :: "config \<Rightarrow> graph \<Rightarrow> new_line list \<Rightarrow> graph \<Rightarrow> bool" where
  "umi_pass_ok cfg g rows g' \<longleftrightarrow>
     g' = g\<lparr>flag := (\<lambda>node. flag g node \<or> node \<in> EndRead ` set rows)\<rparr> \<and>
     (\<forall>row \<in> set rows. EndRead row \<in> set (nodes g) \<and> umi_row_ok cfg g row)"

section \<open>Example graphs\<close>

text \<open>The configuration of the examples: \<open>high_freq_thre = 5\<close>, \<open>max_error_freq = 3\<close>,
  \<open>ambiguous_error_node_degree = 4\<close>.\<close>

definition example_config :: config where
  "example_config =
     \<lparr>high_freq_thre = 5, max_error_freq = 3, ambiguous_error_node_degree = 4,
      verbose = False\<rparr>"

text \<open>The star component of the specification: a centre of count 50 and three leaves of
  counts 1, 2 and 3.\<close>

definition star :: graph where
  "star =
     \<lparr>nodes = [''AAAA'', ''CAAA'', ''GAAA'', ''TAAA''],
      count = (\<lambda>n. if n = ''AAAA'' then 50 else if n = ''CAAA'' then 1
                    else if n = ''GAAA'' then 2 else 3),
      flag = (\<lambda>n. False),
      neighbors = (\<lambda>n. if n = ''AAAA'' then [''CAAA'', ''GAAA'', ''TAAA''] else [''AAAA''])\<rparr>"

text \<open>
  The edit-distance-1 graph of the reads \<open>AC\<close> (5 times), \<open>AG\<close> (5 times), \<open>AA\<close> and \<open>TC\<close>
  (once each): \<open>AA\<close> is adjacent to the two high-frequency reads \<open>AC\<close>, of degree 3, and
  \<open>AG\<close>, of degree 2.
\<close>

definition two_parents :: graph where
  "two_parents =
     \<lparr>nodes = [''AC'', ''AG'', ''AA'', ''TC''],
      count = (\<lambda>n. if n = ''AC'' then 5 else if n = ''AG'' then 5 else 1),
      flag = (\<lambda>n. False),
      neighbors = (\<lambda>n. if n = ''AC'' then [''AG'', ''AA'', ''TC'']
                        else if n = ''AG'' then [''AC'', ''AA'']
                        else if n = ''AA'' then [''AC'', ''AG'']
                        else if n = ''TC'' then [''AC''] else [])\<rparr>"

text \<open>A dataset of four reads: \<open>AC\<close> five times, \<open>AG\<close> five times, \<open>AA\<close> and \<open>TC\<close> once.\<close>

definition example_records :: "(string \<times> read) list" where
  "example_records =
     [(''r1'', ''AC''), (''r2'', ''AC''), (''r3'', ''AG''), (''r4'', ''AC''), (''r5'', ''AA''),
      (''r6'', ''AG''), (''r7'', ''AC''), (''r8'', ''AG''), (''r9'', ''TC''), (''r10'', ''AG''),
      (''r11'', ''AC''), (''r12'', ''AG'')]"

text \<open>
  A component for the scoring variant: \<open>AA\<close> (count 1) is adjacent to \<open>AC\<close> (count 6) and
  \<open>AG\<close> (count 5), and \<open>TG\<close> (count 1) is adjacent to \<open>AG\<close> and to \<open>TT\<close> (count 4, degree 5), which
  is its neighbour of maximal score and of low frequency.
\<close>

definition umi_component :: graph where
  "umi_component =
     \<lparr>nodes = [''AC'', ''AG'', ''AA'', ''TG'', ''TT'', ''TA'', ''TC'', ''CT'', ''GT''],
      count = (\<lambda>n. if n = ''AC'' then 6 else if n = ''AG'' then 5
                    else if n = ''TT'' then 4 else 1),
      flag = (\<lambda>n. False),
      neighbors = (\<lambda>n. if n = ''AC'' then [''AG'', ''AA'']
                        else if n = ''AG'' then [''AC'', ''AA'', ''TG'']
                        else if n = ''AA'' then [''AC'', ''AG'']
                        else if n = ''TG'' then [''AG'', ''TT'']
                        else if n = ''TT'' then [''TG'', ''TA'', ''TC'', ''CT'', ''GT'']
                        else if n \<in> {''TA'', ''TC'', ''CT'', ''GT''} then [''TT'']
                        else [])\<rparr>"

text \<open>The graph of a dataset with the single read \<open>ACGT\<close>, ten times: one node, no edge.\<close>

definition single_read :: graph where
  "single_read =
     \<lparr>nodes = [''ACGT''], count = (\<lambda>n. 10), flag = (\<lambda>n. False), neighbors = (\<lambda>n. [])\<rparr>"

text \<open>
  A component of two reads at edit distance 1: \<open>A\<close>, of count 5, and the empty read, of
  count 1.
\<close>

definition empty_child :: graph where
  "empty_child =
     \<lparr>nodes = [''A'', ''''],
      count = (\<lambda>n. if n = ''A'' then 5 else 1),
      flag = (\<lambda>n. False),
      neighbors = (\<lambda>n. if n = ''A'' then [''''] else if n = '''' then [''A''] else [])\<rparr>"

section \<open>Properties\<close>

subsection \<open>The edit distance\<close>

lemma ed_lower1: "length ys - length xs \<le> editdistance xs ys"
  by (induction xs ys rule: editdistance.induct) auto

lemma ed_lower2: "length xs - length ys \<le> editdistance xs ys"
  by (induction xs ys rule: editdistance.induct) auto

lemma ed_zero: "editdistance xs ys = 0 \<longleftrightarrow> xs = ys"
  by (induction xs ys rule: editdistance.induct) (auto simp: min_def)

lemma ed_one_equal_length:
  "length xs = length ys \<Longrightarrow> editdistance xs ys = 1 \<Longrightarrow>
   \<exists>us a b vs. xs = us @ a # vs \<and> ys = us @ b # vs \<and> a \<noteq> b"
proof (induction xs ys rule: list_induct2)
  case Nil
  then show ?case by simp
next
  case (Cons x xs y ys)
  have l1: "1 \<le> editdistance xs (y # ys)"
    using ed_lower1 [of "y # ys" xs] Cons.hyps by simp
  have l2: "1 \<le> editdistance (x # xs) ys"
    using ed_lower2 [of "x # xs" ys] Cons.hyps by simp
  from Cons.prems l1 l2 have d: "editdistance xs ys + (if x = y then 0 else 1) = 1"
    by (simp add: min_def split: if_splits)
  show ?case
  proof (cases "x = y")
    case True
    with d have "editdistance xs ys = 1" by simp
    from Cons.IH [OF this] obtain us a b vs where
      "xs = us @ a # vs" "ys = us @ b # vs" "a \<noteq> b" by blast
    with True have "x # xs = (x # us) @ a # vs \<and> y # ys = (x # us) @ b # vs \<and> a \<noteq> b"
      by simp
    then show ?thesis by blast
  next
    case False
    with d have "editdistance xs ys = 0" by simp
    then have "xs = ys" by (simp add: ed_zero)
    with False have "x # xs = [] @ x # ys \<and> y # ys = [] @ y # ys \<and> x \<noteq> y" by simp
    then show ?thesis by blast
  qed
qed


subsection \<open>The annotation of two adjacent reads\<close>

lemma scan_position_mismatch:
  "a \<noteq> b \<Longrightarrow> scan_position i (us @ a # vs) (us @ b # ws) = int (i + length us)"
  by (induction us arbitrary: i) auto

lemma py_index_nat: "p < length s \<Longrightarrow> py_index s (int p) = Inr (s ! p)"
  by (simp add: py_index_def)

lemma py_slice_head: "py_slice s 0 2 = take 2 s"
  by (auto simp: py_slice_def py_bound_def min_def)

lemma py_slice_window:
  "0 < p \<Longrightarrow> p < length s \<Longrightarrow> py_slice s (int p - 1) (int p + 2) = take 3 (drop (p - 1) s)"
  by (auto simp: py_slice_def py_bound_def min_def nat_diff_distrib nat_add_distrib)

lemma window_last:
  "0 < p \<Longrightarrow> p = length s - 1 \<Longrightarrow> 2 \<le> length s \<Longrightarrow> take 3 (drop (p - 1) s) = drop (length s - 2) s"
  by (simp add: numeral_2_eq_2 Suc_diff_Suc)

lemma window_inner:
  assumes "0 < p" "p + 1 < length s"
  shows "take 3 (drop (p - 1) s) = [s ! (p - 1), s ! p, s ! (p + 1)]"
proof -
  obtain k where k: "p = Suc k" using assms(1) by (cases p) auto
  have "drop k s = s ! k # s ! Suc k # s ! Suc (Suc k) # drop (Suc (Suc (Suc k))) s"
    using assms(2) k by (simp add: Cons_nth_drop_Suc)
  then show ?thesis using k by (simp add: numeral_3_eq_3)
qed

lemma kmer_of_position:
  assumes "p < length s" "2 \<le> length s"
  shows "(if int p = 0 then py_slice s 0 2
          else if int p = int (length s) then py_slice_from s (-2)
          else py_slice s (int p - 1) (int p + 2)) = spec_kmer s p"
proof (cases "p = 0")
  case True
  then show ?thesis by (simp add: py_slice_head spec_kmer_def)
next
  case False
  then have pos: "0 < p" by simp
  show ?thesis
  proof (cases "p = length s - 1")
    case True
    with pos assms show ?thesis
      using window_last [of p s] py_slice_window [of p s] by (simp add: spec_kmer_def)
  next
    case False
    with assms have "p + 1 < length s" by simp
    with pos assms False show ?thesis
      using window_inner [of p s] py_slice_window [of p s] by (simp add: spec_kmer_def)
  qed
qed

lemma scan_num_cases:
  "scan_num i n xs ys = (pos, k) \<Longrightarrow>
   (pos = -1 \<and> k = n + min (length xs) (length ys)) \<or>
   (\<exists>p < min (length xs) (length ys). pos = int (i + p) \<and> k = n + p)"
proof (induction i n xs ys rule: scan_num.induct)
  case (1 index num x xs y ys)
  show ?case
  proof (cases "x = y")
    case True
    with "1.prems" have "scan_num (Suc index) (Suc num) xs ys = (pos, k)" by simp
    from "1.IH" [OF True this] show ?thesis
    proof
      assume "pos = -1 \<and> k = Suc num + min (length xs) (length ys)"
      then show ?thesis by simp
    next
      assume "\<exists>p < min (length xs) (length ys). pos = int (Suc index + p) \<and> k = Suc num + p"
      then obtain p where "p < min (length xs) (length ys)" "pos = int (Suc index + p)"
        "k = Suc num + p" by blast
      then have "Suc p < min (length (x # xs)) (length (y # ys)) \<and>
          pos = int (index + Suc p) \<and> k = num + Suc p" by simp
      then show ?thesis by blast
    qed
  next
    case False
    with "1.prems" have "pos = int (index + 0) \<and> k = num + 0" by simp
    then show ?thesis by auto
  qed
qed simp_all

lemma scan_num_position:
  assumes "scan_num 0 0 xs ys = (pos0, k)" and "m = min (length xs) (length ys)"
  shows "\<exists>p \<le> m. (if int k = int m then int m else pos0) = int p"
proof -
  from scan_num_cases [OF assms(1)] assms(2)
  consider "pos0 = -1" "k = m" | p where "p < m" "pos0 = int p" "k = p" by auto
  then show ?thesis
  proof cases
    case 1
    then show ?thesis by auto
  next
    case 2
    then have "(if int k = int m then int m else pos0) = int p" by simp
    with 2(1) show ?thesis by (metis less_imp_le_nat)
  qed
qed

lemma py_index_last: "s \<noteq> [] \<Longrightarrow> \<exists>c. py_index s (-1) = Inr c"
  by (cases s) (auto simp: py_index_def)

lemma py_index_pred: "0 < p \<Longrightarrow> p \<le> length s \<Longrightarrow> \<exists>c. py_index s (int p - 1) = Inr c"
  by (auto simp: py_index_def)

lemma classify_shorter_total:
  assumes "StartRead l \<noteq> []" and "length (StartRead l) < length (EndRead l)"
  shows "\<exists>a. classify_shorter l = Inr a"
proof -
  let ?r1 = "StartRead l" and ?r2 = "EndRead l"
  obtain pos0 k where s: "scan_num 0 0 ?r1 ?r2 = (pos0, k)" by (cases "scan_num 0 0 ?r1 ?r2")
  have m: "length ?r1 = min (length ?r1) (length ?r2)" using assms(2) by simp
  from scan_num_position [OF s m] obtain p where
    p: "p \<le> length ?r1" "(if int k = int (length ?r1) then int (length ?r1) else pos0) = int p"
    by blast
  have i2: "py_index ?r2 (int p) = Inr (?r2 ! p)"
    using p(1) assms(2) by (simp add: py_index_nat)
  show ?thesis
  proof (cases "p = 0")
    case True
    have "py_index ?r1 0 = Inr (?r1 ! 0)" using assms(1) py_index_nat [of 0 ?r1] by simp
    with True i2 p(2) s show ?thesis
      by (simp add: classify_shorter_def Let_def bind_def)
  next
    case False
    show ?thesis
    proof (cases "p = length ?r1")
      case True
      from py_index_last [OF assms(1)] obtain c where "py_index ?r1 (-1) = Inr c" by blast
      with True False i2 p(2) s show ?thesis
        by (simp add: classify_shorter_def Let_def bind_def)
    next
      case ne: False
      with p(1) have lt: "p < length ?r1" by simp
      from False p(1) py_index_pred [of p ?r1] obtain c where
        c: "py_index ?r1 (int p - 1) = Inr c" by auto
      have d: "py_index ?r1 (int p) = Inr (?r1 ! p)" using lt by (simp add: py_index_nat)
      from False ne c d i2 p(2) s show ?thesis
        by (simp add: classify_shorter_def Let_def bind_def)
    qed
  qed
qed

lemma classify_longer_total:
  assumes "EndRead l \<noteq> []" and "length (EndRead l) < length (StartRead l)"
  shows "\<exists>a. classify_longer l = Inr a"
proof -
  let ?r1 = "StartRead l" and ?r2 = "EndRead l"
  obtain pos0 k where s: "scan_num 0 0 ?r1 ?r2 = (pos0, k)" by (cases "scan_num 0 0 ?r1 ?r2")
  have m: "length ?r2 = min (length ?r1) (length ?r2)" using assms(2) by simp
  from scan_num_position [OF s m] obtain p where
    p: "p \<le> length ?r2" "(if int k = int (length ?r2) then int (length ?r2) else pos0) = int p"
    by blast
  have i1: "py_index ?r1 (int p) = Inr (?r1 ! p)"
    using p(1) assms(2) by (simp add: py_index_nat)
  show ?thesis
  proof (cases "p = 0")
    case True
    have "py_index ?r2 0 = Inr (?r2 ! 0)" using assms(1) py_index_nat [of 0 ?r2] by simp
    with True i1 p(2) s show ?thesis
      by (simp add: classify_longer_def Let_def bind_def)
  next
    case False
    show ?thesis
    proof (cases "p = length ?r2")
      case True
      from py_index_last [OF assms(1)] obtain c where "py_index ?r2 (-1) = Inr c" by blast
      with True False i1 p(2) s show ?thesis
        by (simp add: classify_longer_def Let_def bind_def)
    next
      case ne: False
      with p(1) have lt: "p < length ?r2" by simp
      from False p(1) py_index_pred [of p ?r2] obtain c where
        c: "py_index ?r2 (int p - 1) = Inr c" by auto
      have d: "py_index ?r2 (int p) = Inr (?r2 ! p)" using lt by (simp add: py_index_nat)
      from False ne c d i1 p(2) s show ?thesis
        by (simp add: classify_longer_def Let_def bind_def)
    qed
  qed
qed

lemma classify_equal_total:
  assumes "length (StartRead l) = length (EndRead l)"
    and "editdistance (StartRead l) (EndRead l) = 1"
  shows "\<exists>a. classify_equal l = Inr a"
proof -
  from ed_one_equal_length [OF assms] obtain us a b vs where
    r: "StartRead l = us @ a # vs" "EndRead l = us @ b # vs" "a \<noteq> b" by blast
  have pos: "scan_position 0 (StartRead l) (EndRead l) = int (length us)"
    using scan_position_mismatch [OF r(3), of 0 us vs vs] by (simp add: r)
  have "py_index (StartRead l) (int (length us)) = Inr a"
    "py_index (EndRead l) (int (length us)) = Inr b"
    by (simp_all add: r py_index_nat)
  then show ?thesis
    by (simp add: classify_equal_def Let_def pos bind_def split: prod.splits)
qed

lemma err_type_classification_total:
  assumes "editdistance (StartRead l) (EndRead l) = 1"
    and "StartRead l \<noteq> []" and "EndRead l \<noteq> []"
  shows "\<exists>a. err_type_classification l = Inr a"
  using assms classify_equal_total [of l] classify_shorter_total [of l]
    classify_longer_total [of l]
  by (auto simp: err_type_classification_def Let_def)

lemma bind_Inl_iff:
  "bind m f = Inl e \<longleftrightarrow> m = Inl e \<or> (\<exists>x. m = Inr x \<and> f x = Inl e)"
  by (cases m) (simp_all add: bind_def)

lemma py_index_error: "py_index s i = Inl e \<Longrightarrow> e = IndexError"
  by (simp add: py_index_def Let_def split: if_splits)

lemma classify_equal_error: "classify_equal l = Inl e \<Longrightarrow> e = IndexError"
  by (auto simp: classify_equal_def Let_def bind_Inl_iff split: prod.splits if_splits
      dest: py_index_error)

lemma classify_shorter_error: "classify_shorter l = Inl e \<Longrightarrow> e = IndexError"
  by (auto simp: classify_shorter_def Let_def bind_Inl_iff split: prod.splits if_splits
      dest: py_index_error)

lemma classify_longer_error: "classify_longer l = Inl e \<Longrightarrow> e = IndexError"
  by (auto simp: classify_longer_def Let_def bind_Inl_iff split: prod.splits if_splits
      dest: py_index_error)

lemma err_type_classification_ValueError:
  "err_type_classification l = Inl ValueError \<longleftrightarrow> editdistance (StartRead l) (EndRead l) \<noteq> 1"
  by (auto simp: err_type_classification_def Let_def
      dest: classify_equal_error classify_shorter_error classify_longer_error)

text \<open>
  Claim C4.  For two reads of the same length, at least 2, at edit distance 1, there is
  exactly one mismatching index \<open>p\<close>, and \<open>err_type_classification\<close> returns the record
  with \<open>ErrorPosition = p\<close>, \<open>ErrorType = parent[p] + "-" + child[p]\<close> and, for each read,
  the flanking k-mer of the specification: the first two characters when \<open>p = 0\<close>, the
  last two when \<open>p\<close> is the last index, the three characters centred on \<open>p\<close> otherwise.
  (The source's test \<open>position == f_len\<close> never holds; the slice
  \<open>read[position-1 : position+2]\<close> is clipped at the end of the read and yields the last
  two characters there.)
\<close>

theorem err_type_classification_substitution:
  assumes len: "length read1 = length read2" and two: "2 \<le> length read1"
    and dis: "editdistance read1 read2 = 1"
  shows "\<exists>p < length read1.
     read1 ! p \<noteq> read2 ! p \<and>
     (\<forall>q < length read1. q \<noteq> p \<longrightarrow> read1 ! q = read2 ! q) \<and>
     err_type_classification
       \<lparr>StartRead = read1, StartReadCount = c1, StartDegree = d1,
        EndRead = read2, EndReadCount = c2, EndDegree = d2\<rparr> =
     Inr \<lparr>StartRead = read1, StartReadCount = c1, StartDegree = d1,
          EndRead = read2, EndReadCount = c2, EndDegree = d2,
          ErrorType = [read1 ! p] @ ''-'' @ [read2 ! p], ErrorPosition = int p,
          StartErrKmer = spec_kmer read1 p, EndErrKmer = spec_kmer read2 p\<rparr>"
proof -
  from ed_one_equal_length [OF len dis] obtain us a b vs where
    r1: "read1 = us @ a # vs" and r2: "read2 = us @ b # vs" and ab: "a \<noteq> b" by blast
  define p where "p = length us"
  have p1: "p < length read1" and p2: "p < length read2" by (simp_all add: p_def r1 r2)
  have n1: "read1 ! p = a" and n2: "read2 ! p = b" by (simp_all add: p_def r1 r2)
  have others: "\<forall>q < length read1. q \<noteq> p \<longrightarrow> read1 ! q = read2 ! q"
    by (auto simp: p_def r1 r2 nth_append nth_Cons split: nat.splits)
  have pos: "scan_position 0 read1 read2 = int p"
    using scan_position_mismatch [OF ab, of 0 us vs vs] by (simp add: p_def r1 r2)
  have k1: "(if int p = 0 then py_slice read1 0 2
          else if int p = int (length read1) then py_slice_from read1 (-2)
          else py_slice read1 (int p - 1) (int p + 2)) = spec_kmer read1 p"
    using kmer_of_position [OF p1 two] .
  have k2: "(if int p = 0 then py_slice read2 0 2
          else if int p = int (length read1) then py_slice_from read2 (-2)
          else py_slice read2 (int p - 1) (int p + 2)) = spec_kmer read2 p"
    using kmer_of_position [of p read2] p2 two unfolding len by simp
  have "classify_equal
       \<lparr>StartRead = read1, StartReadCount = c1, StartDegree = d1,
        EndRead = read2, EndReadCount = c2, EndDegree = d2\<rparr> =
     Inr \<lparr>StartRead = read1, StartReadCount = c1, StartDegree = d1,
          EndRead = read2, EndReadCount = c2, EndDegree = d2,
          ErrorType = [read1 ! p] @ ''-'' @ [read2 ! p], ErrorPosition = int p,
          StartErrKmer = spec_kmer read1 p, EndErrKmer = spec_kmer read2 p\<rparr>"
    using k1 k2 p1 p2
    by (simp add: classify_equal_def pos bind_def py_index_nat annotate_def
        line.extend_def new_line.fields_def split: if_splits)
  then have "err_type_classification
       \<lparr>StartRead = read1, StartReadCount = c1, StartDegree = d1,
        EndRead = read2, EndReadCount = c2, EndDegree = d2\<rparr> =
     Inr \<lparr>StartRead = read1, StartReadCount = c1, StartDegree = d1,
          EndRead = read2, EndReadCount = c2, EndDegree = d2,
          ErrorType = [read1 ! p] @ ''-'' @ [read2 ! p], ErrorPosition = int p,
          StartErrKmer = spec_kmer read1 p, EndErrKmer = spec_kmer read2 p\<rparr>"
    using len dis by (simp add: err_type_classification_def)
  with p1 n1 n2 ab others show ?thesis by blast
qed

text \<open>The specification's example: parent \<open>ACGT\<close>, child \<open>ACCT\<close>.\<close>

theorem err_type_classification_substitution_witness:
  "err_type_classification
       \<lparr>StartRead = ''ACGT'', StartReadCount = 5, StartDegree = 1,
        EndRead = ''ACCT'', EndReadCount = 1, EndDegree = 1\<rparr> =
     Inr \<lparr>StartRead = ''ACGT'', StartReadCount = 5, StartDegree = 1,
          EndRead = ''ACCT'', EndReadCount = 1, EndDegree = 1,
          ErrorType = ''G-C'', ErrorPosition = 2,
          StartErrKmer = ''CGT'', EndErrKmer = ''CCT''\<rparr>"
proof -
  have l: "length ''ACGT'' = length ''ACCT''" by simp
  have t: "2 \<le> length ''ACGT''" by simp
  have d: "editdistance ''ACGT'' ''ACCT'' = 1" by simp
  from err_type_classification_substitution [OF l t d, of 5 1 1 1]
  obtain p where p: "p < length ''ACGT''" "''ACGT'' ! p \<noteq> ''ACCT'' ! p"
    and r: "err_type_classification
       \<lparr>StartRead = ''ACGT'', StartReadCount = 5, StartDegree = 1,
        EndRead = ''ACCT'', EndReadCount = 1, EndDegree = 1\<rparr> =
     Inr \<lparr>StartRead = ''ACGT'', StartReadCount = 5, StartDegree = 1,
          EndRead = ''ACCT'', EndReadCount = 1, EndDegree = 1,
          ErrorType = [''ACGT'' ! p] @ ''-'' @ [''ACCT'' ! p], ErrorPosition = int p,
          StartErrKmer = spec_kmer ''ACGT'' p, EndErrKmer = spec_kmer ''ACCT'' p\<rparr>"
    by blast
  from p have "p = 2"
    by (auto simp: nth_Cons less_Suc_eq numeral_eq_Suc split: nat.splits)
  with r show ?thesis by (simp add: spec_kmer_def)
qed

text \<open>
  Claim C3.  The claim says that \<open>err_type_classification\<close> raises if and only if the
  edit distance is not 1.  For the parent \<open>A\<close> and the empty child the edit distance is 1,
  and the function still raises: the branch \<open>f_len > s_len\<close> finds \<open>position = 0\<close> and
  evaluates \<open>'X' + read2[0]\<close> on the empty read, an \<open>IndexError\<close>.
\<close>

theorem err_type_classification_empty_read:
  "editdistance ''A'' '''' = 1 \<and>
   err_type_classification
     \<lparr>StartRead = ''A'', StartReadCount = 5, StartDegree = 1,
      EndRead = '''', EndReadCount = 1, EndDegree = 1\<rparr> = Inl IndexError"
  by (simp add: err_type_classification_def classify_longer_def bind_def py_index_def)

subsection \<open>The classification of one node\<close>

lemma truncate_annotate: "line.truncate (annotate l t p f s) = l"
  by (cases l) (simp add: annotate_def line.truncate_def line.extend_def)

lemma bind_Inr_iff: "bind m f = Inr v \<longleftrightarrow> (\<exists>u. m = Inr u \<and> f u = Inr v)"
  by (cases m) (simp_all add: bind_def)

lemma classify_equal_line: "classify_equal l = Inr a \<Longrightarrow> line.truncate a = l"
  by (auto simp: classify_equal_def Let_def bind_Inr_iff truncate_annotate split: if_splits)

lemma classify_shorter_line: "classify_shorter l = Inr a \<Longrightarrow> line.truncate a = l"
  by (auto simp: classify_shorter_def Let_def bind_Inr_iff truncate_annotate
      split: if_splits prod.splits)

lemma classify_longer_line: "classify_longer l = Inr a \<Longrightarrow> line.truncate a = l"
  by (auto simp: classify_longer_def Let_def bind_Inr_iff truncate_annotate
      split: if_splits prod.splits)

lemma err_type_classification_line:
  "err_type_classification l = Inr a \<Longrightarrow> line.truncate a = l"
  by (auto simp: err_type_classification_def Let_def
      dest: classify_equal_line classify_shorter_line classify_longer_line split: if_splits)

lemma newline_of_line: "newline_of edit_dis l = Inr r \<Longrightarrow> row_line r = l"
  by (auto simp: newline_of_def bind_Inr_iff dest: err_type_classification_line split: if_splits)

lemma ambiguous_lines_parent_child:
  "ambiguous_lines cfg edit_dis g nei node n2c = Inr tmp_lst \<Longrightarrow>
   \<forall>x \<in> set n2c. snd x \<ge> high_freq_thre cfg \<Longrightarrow>
   map parent_child tmp_lst = map (\<lambda>x. (fst x, node)) n2c"
proof (induction n2c arbitrary: tmp_lst)
  case Nil
  then show ?case by simp
next
  case (Cons x n2c)
  obtain cre_nei cur_nei_count where x: "x = (cre_nei, cur_nei_count)" by (cases x)
  from Cons.prems(2) x have high: "cur_nei_count \<ge> high_freq_thre cfg" by simp
  from Cons.prems(1) x high obtain last_nei newline rest where
    nl: "newline_of edit_dis
           \<lparr>StartRead = cre_nei, StartReadCount = cur_nei_count,
            StartDegree = degree g last_nei,
            EndRead = node, EndReadCount = count g node,
            EndDegree = degree g node\<rparr> = Inr newline"
    and rest: "ambiguous_lines cfg edit_dis g nei node n2c = Inr rest"
    and tmp: "tmp_lst = newline # rest"
    by (auto simp: bind_Inr_iff split: option.splits)
  from Cons.IH [OF rest] Cons.prems(2)
  have "map parent_child rest = map (\<lambda>x. (fst x, node)) n2c" by simp
  moreover from newline_of_line [OF nl] have "parent_child newline = (cre_nei, node)"
    by (simp add: parent_child_def)
  ultimately show ?case using tmp x by simp
qed

lemma nei2count_high: "\<forall>x \<in> set (nei2count cfg g ns). snd x \<ge> high_freq_thre cfg"
  by (auto simp: nei2count_def)

lemma nei2count_fst:
  "map (\<lambda>x. (fst x, node)) (nei2count cfg g ns) =
   map (\<lambda>nei. (nei, node)) (filter (\<lambda>nei. count g nei \<ge> high_freq_thre cfg) ns)"
  by (simp add: nei2count_def comp_def)

lemma length_nei2count:
  "length (nei2count cfg g ns) = length (filter (\<lambda>nei. count g nei \<ge> high_freq_thre cfg) ns)"
  by (simp add: nei2count_def)

lemma classify_spec:
  assumes "classify cfg edit_dis g node = Inr (gen, ambi)"
  shows "map parent_child gen = genuine_of (spec_classify cfg g node) \<and>
         map (map parent_child) ambi = ambiguous_of (spec_classify cfg g node)"
proof -
  let ?H = "high_freq_thre cfg"
  let ?high = "filter (\<lambda>nei. count g nei \<ge> ?H) (neighbors g node)"
  show ?thesis
  proof (cases "degree g node = 1")
    case True
    then obtain nei where nei: "neighbors g node = [nei]"
      by (cases "neighbors g node") (auto simp: degree_def)
    show ?thesis
    proof (cases "count g nei \<ge> ?H")
      case high: True
      with assms True nei obtain newline where
        nl: "newline_of edit_dis
               \<lparr>StartRead = nei, StartReadCount = count g nei, StartDegree = degree g nei,
                EndRead = node, EndReadCount = count g node, EndDegree = degree g node\<rparr>
             = Inr newline"
        and res: "gen = [newline]" "ambi = []"
        by (auto simp: classify_def Let_def bind_Inr_iff)
      from newline_of_line [OF nl] have "parent_child newline = (nei, node)"
        by (simp add: parent_child_def)
      with res True nei high show ?thesis by (simp add: spec_classify_def)
    next
      case False
      with assms True nei have "gen = []" "ambi = []"
        by (auto simp: classify_def Let_def)
      with True nei False show ?thesis by (simp add: spec_classify_def)
    qed
  next
    case not1: False
    show ?thesis
    proof (cases "degree g node \<le> ambiguous_error_node_degree cfg")
      case le: True
      show ?thesis
      proof (cases "length ?high = 1")
        case one: True
        then obtain h where h: "?high = [h]"
          by (cases ?high) auto
        then have "h \<in> set ?high" by simp
        then have hh: "count g h \<ge> ?H" by simp
        have n2c: "nei2count cfg g (neighbors g node) = [(h, count g h)]"
          by (simp add: nei2count_def h)
        from assms not1 le n2c hh obtain newline where
          nl: "newline_of edit_dis
                 \<lparr>StartRead = h, StartReadCount = count g h, StartDegree = degree g h,
                  EndRead = node, EndReadCount = count g node, EndDegree = degree g node\<rparr>
               = Inr newline"
          and res: "gen = [newline]" "ambi = []"
          by (auto simp: classify_def Let_def bind_Inr_iff)
        from newline_of_line [OF nl] have pc: "parent_child newline = (h, node)"
          by (simp add: parent_child_def)
        have deg: "1 < degree g node"
        proof -
          have "length ?high \<le> length (neighbors g node)" by (rule length_filter_le)
          with one not1 show ?thesis by (simp add: degree_def)
        qed
        from res pc not1 le deg h show ?thesis by (simp add: spec_classify_def)
      next
        case notone: False
        from assms not1 le notone obtain tmp_lst where
          al: "ambiguous_lines cfg edit_dis g (loop_variable (neighbors g node)) node
                 (nei2count cfg g (neighbors g node)) = Inr tmp_lst"
          and res: "gen = []" "ambi = (if tmp_lst \<noteq> [] then [tmp_lst] else [])"
          by (auto simp: classify_def Let_def bind_Inr_iff length_nei2count)
        from ambiguous_lines_parent_child [OF al nei2count_high]
        have pc: "map parent_child tmp_lst = map (\<lambda>nei. (nei, node)) ?high"
          by (simp add: nei2count_fst)
        then have emp: "tmp_lst = [] \<longleftrightarrow> ?high = []"
          by (metis map_is_Nil_conv)
        show ?thesis
        proof (cases "?high = []")
          case True
          with res emp not1 show ?thesis by (simp add: spec_classify_def)
        next
          case False
          with notone have many: "length ?high > 1"
            by (cases ?high) auto
          have deg: "1 < degree g node"
          proof -
            have "length ?high \<le> length (neighbors g node)" by (rule length_filter_le)
            with many have "1 < length (neighbors g node)" by linarith
            then show ?thesis by (simp add: degree_def)
          qed
          from False emp res pc many notone not1 le deg show ?thesis
            by (simp add: spec_classify_def)
        qed
      qed
    next
      case False
      with assms not1 have "gen = []" "ambi = []"
        by (auto simp: classify_def Let_def)
      with not1 False show ?thesis by (simp add: spec_classify_def)
    qed
  qed
qed

subsection \<open>The pass over a subgraph\<close>

lemma degree_flag [simp]: "degree (g\<lparr>flag := f\<rparr>) n = degree g n"
  by (simp add: degree_def)

lemma spec_classify_flag [simp]: "spec_classify cfg (g\<lparr>flag := f\<rparr>) = spec_classify cfg g"
  by (rule ext) (simp add: spec_classify_def Let_def)

lemma visit_all_spec:
  assumes "distinct ns"
    and "visit_all cfg edit_dis ns (gen0, ambi0, g) = Inr (gen, ambi, g')"
  shows "map parent_child gen = map parent_child gen0 @
           concat (map (\<lambda>n. genuine_of (spec_classify cfg g n))
             (filter (\<lambda>n. count g n \<le> max_error_freq cfg \<and> \<not> flag g n) ns)) \<and>
         map (map parent_child) ambi = map (map parent_child) ambi0 @
           concat (map (\<lambda>n. ambiguous_of (spec_classify cfg g n))
             (filter (\<lambda>n. count g n \<le> max_error_freq cfg \<and> \<not> flag g n) ns)) \<and>
         g' = g\<lparr>flag := (\<lambda>n. flag g n \<or> (n \<in> set ns \<and> count g n \<le> max_error_freq cfg))\<rparr>"
  using assms
proof (induction ns arbitrary: gen0 ambi0 g)
  case Nil
  then show ?case by simp
next
  case (Cons node rest)
  let ?P = "\<lambda>g n. count g n \<le> max_error_freq cfg \<and> \<not> flag g n"
  from Cons.prems have dist: "distinct rest" and notin: "node \<notin> set rest" by simp_all
  from Cons.prems(2) obtain gen1 ambi1 g1 where
    v: "visit cfg edit_dis node (gen0, ambi0, g) = Inr (gen1, ambi1, g1)"
    and r: "visit_all cfg edit_dis rest (gen1, ambi1, g1) = Inr (gen, ambi, g')"
    by (auto simp: bind_Inr_iff)
  note IH = Cons.IH [OF dist r]
  show ?case
  proof (cases "?P g node")
    case True
    with v obtain gen2 ambi2 where
      c: "classify cfg edit_dis g node = Inr (gen2, ambi2)"
      and g1: "g1 = g\<lparr>flag := (flag g)(node := True)\<rparr>"
      and gen1: "gen1 = gen0 @ gen2" and ambi1: "ambi1 = ambi0 @ ambi2"
      by (auto simp: visit_def bind_Inr_iff)
    have f: "filter (?P g1) rest = filter (?P g) rest"
      using notin by (intro filter_cong) (auto simp: g1)
    have sp: "spec_classify cfg g1 = spec_classify cfg g" by (simp add: g1)
    have fl: "g1\<lparr>flag := (\<lambda>n. flag g1 n \<or> (n \<in> set rest \<and> count g1 n \<le> max_error_freq cfg))\<rparr>
        = g\<lparr>flag := (\<lambda>n. flag g n \<or> (n \<in> set (node # rest) \<and> count g n \<le> max_error_freq cfg))\<rparr>"
      using True by (auto simp: g1 fun_eq_iff)
    from IH classify_spec [OF c] show ?thesis
      unfolding f sp fl using True by (simp add: gen1 ambi1)
  next
    case False
    with v have g1: "g1 = g" and gen1: "gen1 = gen0" and ambi1: "ambi1 = ambi0"
      by (auto simp: visit_def)
    have "(\<lambda>n. flag g n \<or> (n \<in> set rest \<and> count g n \<le> max_error_freq cfg))
        = (\<lambda>n. flag g n \<or> (n \<in> set (node # rest) \<and> count g n \<le> max_error_freq cfg))"
      using False by (intro ext) auto
    then have fl: "g\<lparr>flag := (\<lambda>n. flag g n \<or> (n \<in> set rest \<and> count g n \<le> max_error_freq cfg))\<rparr>
        = g\<lparr>flag := (\<lambda>n. flag g n \<or> (n \<in> set (node # rest) \<and> count g n \<le> max_error_freq cfg))\<rparr>"
      by simp
    from IH show ?thesis
      unfolding g1 gen1 ambi1 fl using False by auto
  qed
qed

lemma edges_from_flag [simp]: "edges_from (g\<lparr>flag := f\<rparr>) seen ns = edges_from g seen ns"
  by (induction ns arbitrary: seen) simp_all

lemma edges_flag [simp]: "edges (g\<lparr>flag := f\<rparr>) = edges g"
  by (simp add: edges_def)

lemma extract_spec:
  assumes "distinct (nodes sub_graph)"
    and "extract_genuine_ambi_errs_subgraph cfg edit_dis sub_graph = Inr (gen_lst, ambi_lst, g')"
    and "edges sub_graph \<noteq> []"
  shows "map parent_child gen_lst =
           concat (map (\<lambda>n. genuine_of (spec_classify cfg sub_graph n)) (eligible cfg sub_graph)) \<and>
         map (map parent_child) ambi_lst =
           concat (map (\<lambda>n. ambiguous_of (spec_classify cfg sub_graph n)) (eligible cfg sub_graph)) \<and>
         g' = sub_graph\<lparr>flag := (\<lambda>n. flag sub_graph n \<or>
                (n \<in> set (nodes sub_graph) \<and> count sub_graph n \<le> max_error_freq cfg))\<rparr>"
  using visit_all_spec [OF assms(1), of cfg edit_dis "[]" "[]" sub_graph gen_lst ambi_lst g'] assms(2,3)
  by (simp add: extract_genuine_ambi_errs_subgraph_def eligible_def)

lemma visit_all_flagged:
  "\<forall>n \<in> set ns. count g n \<le> max_error_freq cfg \<longrightarrow> flag g n \<Longrightarrow>
   visit_all cfg edit_dis ns (gen_lst, ambi_lst, g) = Inr (gen_lst, ambi_lst, g)"
  by (induction ns) (auto simp: visit_def bind_def)

lemma visit_all_flags:
  "visit_all cfg edit_dis ns (gen0, ambi0, g) = Inr (gen, ambi, g') \<Longrightarrow>
   g' = g\<lparr>flag := (\<lambda>n. flag g n \<or> (n \<in> set ns \<and> count g n \<le> max_error_freq cfg))\<rparr>"
proof (induction ns arbitrary: gen0 ambi0 g)
  case Nil
  then show ?case by simp
next
  case (Cons node rest)
  from Cons.prems obtain gen1 ambi1 g1 where
    v: "visit cfg edit_dis node (gen0, ambi0, g) = Inr (gen1, ambi1, g1)"
    and r: "visit_all cfg edit_dis rest (gen1, ambi1, g1) = Inr (gen, ambi, g')"
    by (auto simp: bind_Inr_iff)
  from v have g1: "g1 = g \<and> (count g node \<le> max_error_freq cfg \<longrightarrow> flag g node) \<or>
      g1 = g\<lparr>flag := (flag g)(node := True)\<rparr> \<and> count g node \<le> max_error_freq cfg"
    by (auto simp: visit_def bind_Inr_iff split: if_splits)
  have "(\<lambda>n. flag g1 n \<or> (n \<in> set rest \<and> count g1 n \<le> max_error_freq cfg))
      = (\<lambda>n. flag g n \<or> (n \<in> set (node # rest) \<and> count g n \<le> max_error_freq cfg))"
    using g1 by (intro ext) (auto split: if_splits)
  moreover have "g1\<lparr>flag := f\<rparr> = g\<lparr>flag := f\<rparr>" for f
    using g1 by auto
  ultimately show ?case using Cons.IH [OF r] by simp
qed

lemma genuine_of_child:
  "map snd (genuine_of (spec_classify cfg g n)) =
     (if genuine_of (spec_classify cfg g n) \<noteq> [] then [n] else [])"
  by (simp add: spec_classify_def Let_def)

lemma ambiguous_of_child:
  "map (map snd) (ambiguous_of (spec_classify cfg g n)) =
     (if ambiguous_of (spec_classify cfg g n) \<noteq> []
      then [replicate (length (filter (\<lambda>nei. count g nei \<ge> high_freq_thre cfg) (neighbors g n))) n]
      else [])"
  by (simp add: spec_classify_def Let_def comp_def map_replicate_const)

lemma ambiguous_of_many:
  "ambiguous_of (spec_classify cfg g n) \<noteq> [] \<Longrightarrow>
   1 < length (filter (\<lambda>nei. count g nei \<ge> high_freq_thre cfg) (neighbors g n))"
  by (simp add: spec_classify_def Let_def split: if_splits)

lemma not_both:
  "genuine_of (spec_classify cfg g n) = [] \<or> ambiguous_of (spec_classify cfg g n) = []"
  by (cases "spec_classify cfg g n") simp_all

lemma genuine_children_spec:
  "map snd (concat (map (\<lambda>n. genuine_of (spec_classify cfg g n)) ns)) =
   filter (\<lambda>n. genuine_of (spec_classify cfg g n) \<noteq> []) ns"
  by (induction ns) (simp_all add: genuine_of_child)

lemma ambiguous_children_spec:
  "map (map snd) (concat (map (\<lambda>n. ambiguous_of (spec_classify cfg g n)) ns)) =
   map (\<lambda>n. replicate (length (filter (\<lambda>nei. count g nei \<ge> high_freq_thre cfg) (neighbors g n))) n)
     (filter (\<lambda>n. ambiguous_of (spec_classify cfg g n) \<noteq> []) ns)"
  by (induction ns) (simp_all add: ambiguous_of_child)

lemma child_parent_child: "child = snd \<circ> parent_child"
  by (rule ext) (simp add: child_def parent_child_def)

lemma two_parents_pass:
  "\<exists>g'. extract_genuine_ambi_errs_subgraph example_config 1 two_parents =
     Inr ([Annotated
             \<lparr>StartRead = ''AC'', StartReadCount = 5, StartDegree = 3,
              EndRead = ''TC'', EndReadCount = 1, EndDegree = 1,
              ErrorType = ''A-T'', ErrorPosition = 0, StartErrKmer = ''AC'',
              EndErrKmer = ''TC''\<rparr>],
          [[Annotated
              \<lparr>StartRead = ''AC'', StartReadCount = 5, StartDegree = 2,
               EndRead = ''AA'', EndReadCount = 1, EndDegree = 2,
               ErrorType = ''C-A'', ErrorPosition = 1, StartErrKmer = ''AC'',
               EndErrKmer = ''AA''\<rparr>,
            Annotated
              \<lparr>StartRead = ''AG'', StartReadCount = 5, StartDegree = 2,
               EndRead = ''AA'', EndReadCount = 1, EndDegree = 2,
               ErrorType = ''G-A'', ErrorPosition = 1, StartErrKmer = ''AG'',
               EndErrKmer = ''AA''\<rparr>]], g')"
  by (simp add: extract_genuine_ambi_errs_subgraph_def edges_def two_parents_def
      example_config_def visit_def classify_def bind_def degree_def newline_of_def
      nei2count_def loop_variable_def err_type_classification_def classify_equal_def
      py_index_def py_slice_def py_bound_def py_slice_from_def annotate_def
      line.extend_def new_line.fields_def Let_def)

lemma two_parents_wf: "distinct (nodes two_parents) \<and> edges two_parents \<noteq> []"
  by (simp add: two_parents_def edges_def)

lemma eligible_subset:
  "set (eligible cfg g) \<subseteq> {n \<in> set (nodes g). count g n \<le> max_error_freq cfg}"
  by (auto simp: eligible_def)

lemma distinct_eligible: "distinct (nodes g) \<Longrightarrow> distinct (eligible cfg g)"
  by (simp add: eligible_def)

lemma remdups_replicate_pos: "0 < k \<Longrightarrow> remdups (replicate k x) = [x]"
proof (induction k)
  case 0
  then show ?case by simp
next
  case (Suc k)
  then show ?case by (cases "k = 0") simp_all
qed

lemma concat_remdups_replicate:
  "\<forall>n \<in> set ns. 0 < k n \<Longrightarrow>
   concat (map (remdups \<circ> (\<lambda>n. replicate (k n) n)) ns) = ns"
  by (induction ns) (simp_all add: remdups_replicate_pos)

lemma set_concat_replicate:
  "\<forall>n \<in> set ns. 0 < k n \<Longrightarrow> set (concat (map (\<lambda>n. replicate (k n) n) ns)) = set ns"
  by (induction ns) auto

lemma children_of_pass:
  assumes "distinct (nodes sub_graph)"
    and "extract_genuine_ambi_errs_subgraph cfg edit_dis sub_graph = Inr (gen_lst, ambi_lst, g')"
  shows "\<exists>gs as. map child gen_lst = gs \<and>
           concat (map (remdups \<circ> map child) ambi_lst) = as \<and>
           ambiguous_children ambi_lst = set as \<and>
           distinct gs \<and> distinct as \<and> set gs \<inter> set as = {} \<and>
           set gs \<union> set as \<subseteq> {n \<in> set (nodes sub_graph). count sub_graph n \<le> max_error_freq cfg}"
proof (cases "edges sub_graph = []")
  case True
  with assms(2) have "gen_lst = []" "ambi_lst = []"
    by (simp_all add: extract_genuine_ambi_errs_subgraph_def)
  then show ?thesis by (simp add: ambiguous_children_def)
next
  case False
  let ?el = "eligible cfg sub_graph"
  let ?k = "\<lambda>n. length (filter (\<lambda>nei. count sub_graph nei \<ge> high_freq_thre cfg)
                      (neighbors sub_graph n))"
  let ?gs = "filter (\<lambda>n. genuine_of (spec_classify cfg sub_graph n) \<noteq> []) ?el"
  let ?as = "filter (\<lambda>n. ambiguous_of (spec_classify cfg sub_graph n) \<noteq> []) ?el"
  note sp = extract_spec [OF assms False]
  have g: "map child gen_lst = ?gs"
    using sp genuine_children_spec [of cfg sub_graph ?el]
    by (simp add: child_parent_child flip: map_map)
  have "map (map child) ambi_lst = map (map snd) (map (map parent_child) ambi_lst)"
    by (simp add: child_parent_child)
  then have a: "map (map child) ambi_lst = map (\<lambda>n. replicate (?k n) n) ?as"
    using sp ambiguous_children_spec [of cfg sub_graph ?el] by simp
  have pos: "\<forall>n \<in> set ?as. 0 < ?k n"
    using ambiguous_of_many [of cfg sub_graph] by fastforce
  have "concat (map (remdups \<circ> map child) ambi_lst)
      = concat (map remdups (map (map child) ambi_lst))" by simp
  also have "\<dots> = concat (map (remdups \<circ> (\<lambda>n. replicate (?k n) n)) ?as)"
    unfolding a by simp
  also have "\<dots> = ?as" using pos by (rule concat_remdups_replicate)
  finally have a1: "concat (map (remdups \<circ> map child) ambi_lst) = ?as" .
  have a2: "ambiguous_children ambi_lst = set ?as"
    unfolding ambiguous_children_def a using pos by (rule set_concat_replicate)
  have d: "distinct ?gs" "distinct ?as"
    using distinct_eligible [OF assms(1), of cfg] by simp_all
  have disj: "set ?gs \<inter> set ?as = {}"
    using not_both [of cfg sub_graph] by auto
  have sub: "set ?gs \<union> set ?as \<subseteq> {n \<in> set (nodes sub_graph). count sub_graph n \<le> max_error_freq cfg}"
    using eligible_subset [of cfg sub_graph] by auto
  from g a1 a2 d disj sub show ?thesis by blast
qed

lemma newline_of_total:
  "edit_dis \<noteq> 1 \<or> (editdistance (StartRead l) (EndRead l) = 1 \<and> StartRead l \<noteq> [] \<and> EndRead l \<noteq> [])
   \<Longrightarrow> \<exists>r. newline_of edit_dis l = Inr r"
  using err_type_classification_total [of l]
  by (auto simp: newline_of_def bind_def)

lemma ambiguous_lines_total:
  assumes "\<forall>x \<in> set n2c. edit_dis \<noteq> 1 \<or> (editdistance (fst x) node = 1 \<and> fst x \<noteq> [] \<and> node \<noteq> [])"
  shows "\<exists>tmp_lst. ambiguous_lines cfg edit_dis g (Some last_nei) node n2c = Inr tmp_lst"
  using assms
proof (induction n2c)
  case Nil
  then show ?case by simp
next
  case (Cons x n2c)
  obtain cre_nei cur_nei_count where x: "x = (cre_nei, cur_nei_count)" by (cases x)
  from Cons obtain rest where
    rest: "ambiguous_lines cfg edit_dis g (Some last_nei) node n2c = Inr rest" by auto
  from Cons.prems x have
    "edit_dis \<noteq> 1 \<or> (editdistance cre_nei node = 1 \<and> cre_nei \<noteq> [] \<and> node \<noteq> [])" by simp
  then obtain newline where
    "newline_of edit_dis
       \<lparr>StartRead = cre_nei, StartReadCount = cur_nei_count,
        StartDegree = degree g last_nei,
        EndRead = node, EndReadCount = count g node,
        EndDegree = degree g node\<rparr> = Inr newline"
    using newline_of_total [of edit_dis "\<lparr>StartRead = cre_nei, StartReadCount = cur_nei_count,
        StartDegree = degree g last_nei,
        EndRead = node, EndReadCount = count g node,
        EndDegree = degree g node\<rparr>"] by auto
  with rest x show ?case by (simp add: bind_def)
qed

lemma classify_total:
  assumes "edit_dis \<noteq> 1 \<or>
     (\<forall>m \<in> set (neighbors g node). editdistance m node = 1 \<and> m \<noteq> [] \<and> node \<noteq> [])"
  shows "\<exists>r. classify cfg edit_dis g node = Inr r"
proof -
  let ?ok = "\<lambda>m. edit_dis \<noteq> 1 \<or> (editdistance m node = 1 \<and> m \<noteq> [] \<and> node \<noteq> [])"
  from assms have ok: "\<forall>m \<in> set (neighbors g node). ?ok m" by auto
  have nl: "\<exists>r. newline_of edit_dis
       \<lparr>StartRead = m, StartReadCount = c, StartDegree = d,
        EndRead = node, EndReadCount = c', EndDegree = d'\<rparr> = Inr r"
    if "m \<in> set (neighbors g node)" for m c d c' d'
    using ok that by (intro newline_of_total) auto
  show ?thesis
  proof (cases "degree g node = 1")
    case True
    then obtain nei where nei: "neighbors g node = [nei]"
      by (cases "neighbors g node") (auto simp: degree_def)
    from nl [of nei "count g nei" "degree g nei" "count g node" "degree g node"] nei
    obtain r where "newline_of edit_dis
       \<lparr>StartRead = nei, StartReadCount = count g nei, StartDegree = degree g nei,
        EndRead = node, EndReadCount = count g node, EndDegree = degree g node\<rparr> = Inr r"
      by auto
    with True nei show ?thesis by (simp add: classify_def Let_def bind_def)
  next
    case not1: False
    show ?thesis
    proof (cases "degree g node \<le> ambiguous_error_node_degree cfg")
      case False
      with not1 show ?thesis by (simp add: classify_def Let_def)
    next
      case le: True
      let ?n2c = "nei2count cfg g (neighbors g node)"
      show ?thesis
      proof (cases "length ?n2c = 1")
        case True
        then obtain h c where h: "?n2c = [(h, c)]"
          by (cases ?n2c) auto
        then have "(h, c) \<in> set ?n2c" by simp
        then have hm: "h \<in> set (neighbors g node)" and hc: "c \<ge> high_freq_thre cfg"
          by (auto simp: nei2count_def)
        from nl [OF hm, of c "degree g h" "count g node" "degree g node"]
        obtain r where "newline_of edit_dis
           \<lparr>StartRead = h, StartReadCount = c, StartDegree = degree g h,
            EndRead = node, EndReadCount = count g node, EndDegree = degree g node\<rparr> = Inr r"
          by auto
        with not1 le h hc show ?thesis by (simp add: classify_def Let_def bind_def)
      next
        case False
        have "\<exists>tmp_lst. ambiguous_lines cfg edit_dis g (loop_variable (neighbors g node)) node ?n2c
            = Inr tmp_lst"
        proof (cases "neighbors g node")
          case Nil
          then show ?thesis by (simp add: nei2count_def)
        next
          case (Cons a as)
          then have lv: "loop_variable (neighbors g node) = Some (last (neighbors g node))"
            by (simp add: loop_variable_def)
          have "\<forall>x \<in> set ?n2c. ?ok (fst x)"
            using ok by (auto simp: nei2count_def)
          from ambiguous_lines_total [OF this] show ?thesis unfolding lv .
        qed
        with not1 le False show ?thesis by (auto simp: classify_def Let_def bind_def)
      qed
    qed
  qed
qed

lemma visit_all_total:
  assumes "edit_dis \<noteq> 1 \<or>
     (\<forall>n \<in> set ns. \<forall>m \<in> set (neighbors g n). editdistance m n = 1 \<and> m \<noteq> [] \<and> n \<noteq> [])"
  shows "\<exists>r. visit_all cfg edit_dis ns (gen_lst, ambi_lst, g) = Inr r"
  using assms
proof (induction ns arbitrary: gen_lst ambi_lst g)
  case Nil
  then show ?case by simp
next
  case (Cons node rest)
  from Cons.prems have "edit_dis \<noteq> 1 \<or>
     (\<forall>m \<in> set (neighbors g node). editdistance m node = 1 \<and> m \<noteq> [] \<and> node \<noteq> [])"
    by auto
  from classify_total [OF this] obtain gen ambi where
    c: "classify cfg edit_dis g node = Inr (gen, ambi)" by fastforce
  then obtain gen1 ambi1 g1 where
    v: "visit cfg edit_dis node (gen_lst, ambi_lst, g) = Inr (gen1, ambi1, g1)"
    and nb: "neighbors g1 = neighbors g"
    by (cases "count g node \<le> max_error_freq cfg \<and> \<not> flag g node")
      (auto simp: visit_def bind_def)
  from Cons.prems nb have "edit_dis \<noteq> 1 \<or>
     (\<forall>n \<in> set rest. \<forall>m \<in> set (neighbors g1 n). editdistance m n = 1 \<and> m \<noteq> [] \<and> n \<noteq> [])"
    by auto
  from Cons.IH [OF this] v show ?case by (simp add: bind_def)
qed

lemma extract_total:
  assumes "edit_dis \<noteq> 1 \<or> adjacent_reads sub_graph"
  shows "\<exists>gen_lst ambi_lst g'.
     extract_genuine_ambi_errs_subgraph cfg edit_dis sub_graph = Inr (gen_lst, ambi_lst, g')"
proof -
  from assms have "edit_dis \<noteq> 1 \<or>
     (\<forall>n \<in> set (nodes sub_graph). \<forall>m \<in> set (neighbors sub_graph n).
        editdistance m n = 1 \<and> m \<noteq> [] \<and> n \<noteq> [])"
    by (auto simp: adjacent_reads_def)
  from visit_all_total [OF this, of cfg "[]" "[]"] show ?thesis
    by (cases "edges sub_graph = []") (auto simp: extract_genuine_ambi_errs_subgraph_def)
qed

lemma two_parents_adjacent: "adjacent_reads two_parents"
  by (simp add: adjacent_reads_def two_parents_def)

text \<open>
  For a subgraph with at least one edge (in edit-distance-1 mode: whose edges join
  non-empty reads at edit distance 1), \<open>extract_genuine_ambi_errs_subgraph\<close> returns, and
  the rows it returns are, parent and child read for parent and child read, what the
  specification prescribes for the nodes with \<open>count <= max_error_freq\<close> that are not
  yet visited, in the order of the nodes.
\<close>

lemma classifies_adjacent_reads:
  assumes "distinct (nodes sub_graph)" and "edges sub_graph \<noteq> []"
    and "edit_dis \<noteq> 1 \<or> adjacent_reads sub_graph"
  shows "\<exists>gen_lst ambi_lst g'.
     extract_genuine_ambi_errs_subgraph cfg edit_dis sub_graph = Inr (gen_lst, ambi_lst, g') \<and>
     map parent_child gen_lst =
       concat (map (\<lambda>node. genuine_of (spec_classify cfg sub_graph node))
                 (eligible cfg sub_graph)) \<and>
     map (map parent_child) ambi_lst =
       concat (map (\<lambda>node. ambiguous_of (spec_classify cfg sub_graph node))
                 (eligible cfg sub_graph))"
proof -
  from extract_total [OF assms(3)] obtain gen_lst ambi_lst g' where
    r: "extract_genuine_ambi_errs_subgraph cfg edit_dis sub_graph = Inr (gen_lst, ambi_lst, g')"
    by blast
  from extract_spec [OF assms(1) r assms(2)] r show ?thesis by auto
qed

text \<open>The graph \<open>two_parents\<close>: \<open>TC\<close> is a genuine error of \<open>AC\<close>, and \<open>AA\<close> is
  ambiguous between \<open>AC\<close> and \<open>AG\<close>.\<close>

lemma two_parents_classified:
  "\<exists>gen_lst ambi_lst g'.
     extract_genuine_ambi_errs_subgraph example_config 1 two_parents = Inr (gen_lst, ambi_lst, g') \<and>
     map parent_child gen_lst = [(''AC'', ''TC'')] \<and>
     map (map parent_child) ambi_lst = [[(''AC'', ''AA''), (''AG'', ''AA'')]]"
proof -
  from two_parents_wf have d: "distinct (nodes two_parents)" and e: "edges two_parents \<noteq> []"
    by simp_all
  have a: "(1::int) \<noteq> 1 \<or> adjacent_reads two_parents"
    using two_parents_adjacent by simp
  have el: "eligible example_config two_parents = [''AA'', ''TC'']"
    by (simp add: eligible_def two_parents_def example_config_def)
  have s1: "spec_classify example_config two_parents ''AA'' =
      Ambiguous [(''AC'', ''AA''), (''AG'', ''AA'')]"
    by (simp add: spec_classify_def two_parents_def example_config_def degree_def)
  have s2: "spec_classify example_config two_parents ''TC'' = Genuine ''AC'' ''TC''"
    by (simp add: spec_classify_def two_parents_def example_config_def degree_def)
  from classifies_adjacent_reads [OF d e a, of example_config]
  show ?thesis by (simp add: el s1 s2)
qed

subsection \<open>Claims about the pass over a subgraph\<close>

text \<open>
  Claim C1.  The claim is that, for every component with an edge and every node of it
  with \<open>count <= max_error_freq\<close> that is not yet visited,
  \<open>extract_genuine_ambi_errs_subgraph\<close> emits a genuine record with the sole neighbour
  as parent when the node has degree 1 and that neighbour has
  \<open>count >= high_freq_thre\<close>.  In the component \<open>empty_child\<close> the empty read is such a
  node, its sole neighbour \<open>A\<close> has count 5, and the two reads are at edit distance 1; in
  edit-distance-1 mode the function calls \<open>err_type_classification\<close> on the pair, which
  raises \<open>IndexError\<close> on the empty read, and no record is emitted.
\<close>

theorem extract_genuine_ambi_errs_subgraph_empty_read:
  "distinct (nodes empty_child) \<and> edges empty_child = [(''A'', '''')] \<and>
   editdistance ''A'' '''' = 1 \<and>
   eligible example_config empty_child = [''''] \<and>
   degree empty_child '''' = 1 \<and>
   count empty_child ''A'' \<ge> high_freq_thre example_config \<and>
   spec_classify example_config empty_child '''' = Genuine ''A'' '''' \<and>
   extract_genuine_ambi_errs_subgraph example_config 1 empty_child = Inl IndexError"
  by (simp add: extract_genuine_ambi_errs_subgraph_def edges_def empty_child_def
      example_config_def eligible_def spec_classify_def visit_def classify_def bind_def
      degree_def newline_of_def err_type_classification_def classify_longer_def
      py_index_def Let_def)

text \<open>
  Claim C2.  The claim is that the \<open>StartDegree\<close> of every candidate row of an ambiguous
  group is the degree of that row's own \<open>StartRead\<close>.  The source writes
  \<open>sub_graph.degree[nei]\<close>, the degree of the last neighbour of the node, into every
  candidate row, where the genuine branches write the degree of the parent itself.  In
  the graph \<open>two_parents\<close> the node \<open>AA\<close> has the neighbours \<open>AC\<close> (degree 3) and
  \<open>AG\<close> (degree 2), and the candidate row of \<open>AC\<close> carries \<open>StartDegree = 2\<close>.
\<close>

theorem ambiguous_parent_degree_stale:
  "\<exists>gen_lst candidate other g'.
     extract_genuine_ambi_errs_subgraph example_config 1 two_parents =
       Inr (gen_lst, [[candidate, other]], g') \<and>
     StartRead (row_line candidate) = ''AC'' \<and>
     StartDegree (row_line candidate) = 2 \<and>
     degree two_parents ''AC'' = 3"
proof -
  have "degree two_parents ''AC'' = 3" by (simp add: degree_def two_parents_def)
  with two_parents_pass show ?thesis
    by (auto simp: line.truncate_def)
qed

text \<open>
  Claim C8.  After one pass over a subgraph, the children of the genuine rows, the children
  of the ambiguous groups, the nodes with \<open>count > max_error_freq\<close> and the remaining
  nodes (of \<open>count <= max_error_freq\<close>, child of no row) are pairwise disjoint and their
  union is the node set; no node is the child of two genuine rows or of two ambiguous
  groups.
\<close>

theorem extract_genuine_ambi_errs_subgraph_partition:
  assumes "distinct (nodes sub_graph)"
    and "extract_genuine_ambi_errs_subgraph cfg edit_dis sub_graph = Inr (gen_lst, ambi_lst, g')"
  shows "genuine_children gen_lst \<inter> ambiguous_children ambi_lst = {} \<and>
         genuine_children gen_lst \<inter> filtered_by_count cfg sub_graph = {} \<and>
         genuine_children gen_lst \<inter> unclassified cfg sub_graph gen_lst ambi_lst = {} \<and>
         ambiguous_children ambi_lst \<inter> filtered_by_count cfg sub_graph = {} \<and>
         ambiguous_children ambi_lst \<inter> unclassified cfg sub_graph gen_lst ambi_lst = {} \<and>
         filtered_by_count cfg sub_graph \<inter> unclassified cfg sub_graph gen_lst ambi_lst = {} \<and>
         genuine_children gen_lst \<union> ambiguous_children ambi_lst \<union>
           filtered_by_count cfg sub_graph \<union> unclassified cfg sub_graph gen_lst ambi_lst
           = set (nodes sub_graph) \<and>
         distinct (map child gen_lst) \<and>
         distinct (concat (map (remdups \<circ> map child) ambi_lst))"
proof -
  from children_of_pass [OF assms] obtain gs as where
    g: "map child gen_lst = gs" and a: "concat (map (remdups \<circ> map child) ambi_lst) = as"
    and ac: "ambiguous_children ambi_lst = set as"
    and d: "distinct gs" "distinct as" and disj: "set gs \<inter> set as = {}"
    and sub: "set gs \<union> set as \<subseteq> {n \<in> set (nodes sub_graph). count sub_graph n \<le> max_error_freq cfg}"
    by blast
  have gc: "genuine_children gen_lst = set gs" by (simp add: genuine_children_def g)
  show ?thesis
    unfolding gc ac g a unclassified_def filtered_by_count_def
    using d disj sub by auto
qed

theorem extract_genuine_ambi_errs_subgraph_partition_witness:
  "\<exists>gen_lst ambi_lst g'.
     extract_genuine_ambi_errs_subgraph example_config 1 two_parents = Inr (gen_lst, ambi_lst, g') \<and>
     genuine_children gen_lst = {''TC''} \<and> ambiguous_children ambi_lst = {''AA''} \<and>
     filtered_by_count example_config two_parents = {''AC'', ''AG''} \<and>
     unclassified example_config two_parents gen_lst ambi_lst = {} \<and>
     genuine_children gen_lst \<inter> ambiguous_children ambi_lst = {} \<and>
     genuine_children gen_lst \<union> ambiguous_children ambi_lst \<union>
       filtered_by_count example_config two_parents \<union>
       unclassified example_config two_parents gen_lst ambi_lst = set (nodes two_parents)"
proof -
  from two_parents_pass obtain gen_lst ambi_lst g' where
    r: "extract_genuine_ambi_errs_subgraph example_config 1 two_parents = Inr (gen_lst, ambi_lst, g')"
    and gc: "genuine_children gen_lst = {''TC''}" and ac: "ambiguous_children ambi_lst = {''AA''}"
    by (auto simp: genuine_children_def ambiguous_children_def child_def line.truncate_def)
  from two_parents_wf have d: "distinct (nodes two_parents)" by simp
  have f: "filtered_by_count example_config two_parents = {''AC'', ''AG''}"
    by (auto simp: filtered_by_count_def two_parents_def example_config_def)
  have u: "unclassified example_config two_parents gen_lst ambi_lst = {}"
    by (auto simp: unclassified_def gc ac two_parents_def example_config_def)
  from extract_genuine_ambi_errs_subgraph_partition [OF d r] r gc ac f u
  show ?thesis by blast
qed

text \<open>
  Claim C9.  A second run of \<open>extract_genuine_ambi_errs_subgraph\<close> on the subgraph that a
  completed first run has left returns two empty lists and leaves the subgraph as it is.
\<close>

theorem extract_genuine_ambi_errs_subgraph_second_pass:
  assumes "extract_genuine_ambi_errs_subgraph cfg edit_dis g = Inr (gen_lst, ambi_lst, g')"
  shows "extract_genuine_ambi_errs_subgraph cfg edit_dis g' = Inr ([], [], g')"
proof (cases "edges g = []")
  case True
  with assms show ?thesis by (simp add: extract_genuine_ambi_errs_subgraph_def)
next
  case False
  with assms have "visit_all cfg edit_dis (nodes g) ([], [], g) = Inr (gen_lst, ambi_lst, g')"
    by (simp add: extract_genuine_ambi_errs_subgraph_def)
  from visit_all_flags [OF this]
  have g': "g' = g\<lparr>flag := (\<lambda>n. flag g n \<or> (n \<in> set (nodes g) \<and> count g n \<le> max_error_freq cfg))\<rparr>" .
  then have "\<forall>n \<in> set (nodes g'). count g' n \<le> max_error_freq cfg \<longrightarrow> flag g' n"
    by simp
  from visit_all_flagged [OF this]
  show ?thesis by (simp add: extract_genuine_ambi_errs_subgraph_def)
qed

theorem extract_genuine_ambi_errs_subgraph_second_pass_witness:
  "\<exists>gen_lst ambi_lst g'.
     extract_genuine_ambi_errs_subgraph example_config 1 two_parents = Inr (gen_lst, ambi_lst, g') \<and>
     gen_lst \<noteq> [] \<and> ambi_lst \<noteq> [] \<and>
     extract_genuine_ambi_errs_subgraph example_config 1 g' = Inr ([], [], g')"
proof -
  from two_parents_pass obtain gen_lst ambi_lst g' where
    r: "extract_genuine_ambi_errs_subgraph example_config 1 two_parents = Inr (gen_lst, ambi_lst, g')"
    and ne: "gen_lst \<noteq> []" "ambi_lst \<noteq> []"
    by auto
  from extract_genuine_ambi_errs_subgraph_second_pass [OF r] r ne show ?thesis by blast
qed

subsection \<open>Isolated nodes and the construction of the graph\<close>

lemma extract_isolated_negatives_not_connected:
  assumes "is_connected g = Inr False" and "edit_dis = 1 \<or> edit_dis = 2"
  shows "extract_isolated_negatives cfg g edit_dis =
         Inr (map (\<lambda>k. (k, count g k, 0))
               (filter (\<lambda>k. degree g k = 0 \<and> count g k \<ge> high_freq_thre cfg) (nodes g)))"
proof -
  have "map (\<lambda>k. (k, count g k, degree g k))
          (filter (\<lambda>k. count g k \<ge> high_freq_thre cfg) (isolates_of g)) =
        map (\<lambda>k. (k, count g k, 0))
          (filter (\<lambda>k. degree g k = 0 \<and> count g k \<ge> high_freq_thre cfg) (nodes g))"
    by (auto simp: isolates_of_def conj_commute intro: map_cong)
  with assms show ?thesis
    by (auto simp: extract_isolated_negatives_def bind_def Let_def)
qed

lemma set_first_occurrences [simp]: "set (first_occurrences xs) = set xs"
  by (simp add: first_occurrences_def)

lemma distinct_first_occurrences [simp]: "distinct (first_occurrences xs)"
  by (simp add: first_occurrences_def)

lemma set_Counter:
  "set (Counter total_seqs) = (\<lambda>r. (r, int (count_list total_seqs r))) ` set total_seqs"
  by (simp add: Counter_def)

lemma high_freq_set:
  "set (map fst (filter (\<lambda>(read, frequency). frequency \<ge> h) (Counter total_seqs))) =
   {r \<in> set total_seqs. int (count_list total_seqs r) \<ge> h}"
  by (auto simp: set_Counter image_iff)

lemma low_freq_set:
  "set (map fst (filter (\<lambda>(read, frequency). \<not> frequency \<ge> h) (Counter total_seqs))) =
   {r \<in> set total_seqs. int (count_list total_seqs r) < h}"
  by (auto simp: set_Counter image_iff)

lemma high_freq_empty:
  "map fst (filter (\<lambda>(read, frequency). frequency \<ge> h) (Counter total_seqs)) = [] \<longleftrightarrow>
   (\<forall>r \<in> set total_seqs. int (count_list total_seqs r) < h)"
proof -
  have "map fst (filter (\<lambda>(read, frequency). frequency \<ge> h) (Counter total_seqs)) = [] \<longleftrightarrow>
     set (map fst (filter (\<lambda>(read, frequency). frequency \<ge> h) (Counter total_seqs))) = {}"
    by (simp only: set_empty)
  also have "\<dots> \<longleftrightarrow> (\<forall>r \<in> set total_seqs. int (count_list total_seqs r) < h)"
    unfolding high_freq_set by auto
  finally show ?thesis .
qed


lemma neighbors_add_neighbor:
  "set (neighbors (add_neighbor g u v) n) = set (neighbors g n) \<union> (if n = u then {v} else {})"
  by (auto simp: add_neighbor_def)

lemma neighbors_add_edge:
  "set (neighbors (add_edge g (u, v)) n) =
   set (neighbors g n) \<union> {m. (n, m) = (u, v) \<or> (m, n) = (u, v)}"
  by (auto simp: add_edge_def neighbors_add_neighbor)

lemma neighbors_add_edges_from:
  "set (neighbors (add_edges_from g edges_lst) n) =
   set (neighbors g n) \<union> {m. (n, m) \<in> set edges_lst \<or> (m, n) \<in> set edges_lst}"
proof (induction edges_lst arbitrary: g)
  case Nil
  then show ?case by (simp add: add_edges_from_def)
next
  case (Cons e edges_lst)
  obtain u v where e: "e = (u, v)" by (cases e)
  have "add_edges_from g (e # edges_lst) = add_edges_from (add_edge g e) edges_lst"
    by (simp add: add_edges_from_def)
  then show ?case
    using Cons.IH [of "add_edge g e"] by (auto simp: e neighbors_add_edge)
qed

lemma set_zip_replicate:
  "set (zip (replicate (length xs) a) xs) = {a} \<times> set xs"
  by (induction xs) auto

lemma set_real_ed1_seqs:
  "set (real_ed1_seqs enum total_seqs read) = {read} \<times> (set total_seqs \<inter> set (enum read))"
  by (auto simp: real_ed1_seqs_def Let_def set_zip_replicate)

lemma set_real_ed2_seqs:
  "set (real_ed2_seqs enum low_seqs read) = {read} \<times> (set (enum read) \<inter> set low_seqs)"
  by (auto simp: real_ed2_seqs_def Let_def set_zip_replicate)

lemma in_concat_map:
  "e \<in> set (concat (map f hs)) \<longleftrightarrow> (\<exists>h \<in> set hs. e \<in> set (f h))"
  by auto

lemma edges_ed1:
  "(a, b) \<in> set (concat (map (real_ed1_seqs enum1 (first_occurrences total_seqs))
      (map fst (filter (\<lambda>(read, frequency). frequency \<ge> high_freq_thre cfg) (Counter total_seqs)))))
   \<longleftrightarrow> spec_edge enum1 cfg total_seqs 1 a b"
  unfolding in_concat_map high_freq_set set_real_ed1_seqs
  by (auto simp: spec_edge_def spec_universe_def)

lemma edges_ed2:
  "(a, b) \<in> set (concat (map (real_ed2_seqs enum2
        (map fst (filter (\<lambda>(read, frequency). \<not> frequency \<ge> high_freq_thre cfg) (Counter total_seqs))))
      (map fst (filter (\<lambda>(read, frequency). frequency \<ge> high_freq_thre cfg) (Counter total_seqs)))))
   \<longleftrightarrow> spec_edge enum2 cfg total_seqs 2 a b"
  unfolding in_concat_map high_freq_set set_real_ed2_seqs low_freq_set
  by (auto simp: spec_edge_def spec_universe_def)

lemma add_edges_if:
  "(if length edges_lst > 0 then add_edges_from g edges_lst else g) = add_edges_from g edges_lst"
  by (simp add: add_edges_from_def)

lemma generate_graph_unfold:
  "generate_graph enum1 enum2 cfg record_iterator edit_dis =
     (let total_seqs = map snd record_iterator;
          graph = \<lparr>nodes = map fst (Counter total_seqs),
                   count = (\<lambda>read. int (count_list total_seqs read)),
                   flag = (\<lambda>read. False),
                   neighbors = (\<lambda>read. [])\<rparr>;
          high_freq = map fst (filter (\<lambda>(read, frequency). frequency \<ge> high_freq_thre cfg) (Counter total_seqs));
          low_freq = map fst (filter (\<lambda>(read, frequency). \<not> frequency \<ge> high_freq_thre cfg) (Counter total_seqs))
      in if high_freq = [] then ([], Inl (SystemExit 1))
         else if edit_dis = 1 then
           (map Dispatch high_freq,
            Inr (add_edges_from graph
                   (concat (map (real_ed1_seqs enum1 (first_occurrences total_seqs)) high_freq)),
                 first_occurrences total_seqs))
         else if edit_dis = 2 then
           (map Dispatch high_freq,
            Inr (add_edges_from graph (concat (map (real_ed2_seqs enum2 low_freq) high_freq)),
                 first_occurrences total_seqs))
         else ([], Inl UnboundLocalError))"
  unfolding generate_graph_def Let_def add_edges_if length_0_conv ..

text \<open>The graph \<open>two_parents\<close> is the edit-distance-1 graph that \<open>generate_graph\<close> builds
  from the dataset \<open>example_records\<close>.\<close>

lemma example_records_graph:
  "\<exists>trace g unique_seqs.
     generate_graph enumerate_ed1_seqs enumerate_ed2_seqs example_config example_records 1
       = (trace, Inr (g, unique_seqs)) \<and>
     nodes g = nodes two_parents \<and>
     (\<forall>n \<in> set (nodes g). count g n = count two_parents n \<and> flag g n = flag two_parents n \<and>
        neighbors g n = neighbors two_parents n)"
  by (simp add: generate_graph_unfold Let_def Counter_def first_occurrences_def
      example_records_def example_config_def two_parents_def real_ed1_seqs_def
      add_edges_from_def add_edge_def add_neighbor_def)


subsection \<open>Claims about the construction of the graph and the isolated nodes\<close>

text \<open>
  Claim C5.  \<open>generate_graph\<close> ends the run with a non-zero exit code if and only if no
  read of the dataset has \<open>count >= high_freq_thre\<close>, and when it does so no neighbour
  search has been handed to the worker pool.
\<close>

theorem generate_graph_exit:
  "((\<exists>code. code \<noteq> 0 \<and>
       snd (generate_graph enum1 enum2 cfg record_iterator edit_dis)
         = Inl (SystemExit code)) \<longleftrightarrow>
    (\<forall>read \<in> set (map snd record_iterator).
       int (count_list (map snd record_iterator) read) < high_freq_thre cfg)) \<and>
   ((\<exists>code. snd (generate_graph enum1 enum2 cfg record_iterator edit_dis)
         = Inl (SystemExit code)) \<longrightarrow>
    fst (generate_graph enum1 enum2 cfg record_iterator edit_dis) = [])"
  using high_freq_empty [of "high_freq_thre cfg" "map snd record_iterator"]
  by (auto simp: generate_graph_def Let_def)

theorem generate_graph_exit_witness:
  "(\<exists>code. code \<noteq> 0 \<and>
       snd (generate_graph enumerate_ed1_seqs enumerate_ed2_seqs
              (example_config\<lparr>high_freq_thre := 6\<rparr>) example_records 1)
         = Inl (SystemExit code)) \<and>
   fst (generate_graph enumerate_ed1_seqs enumerate_ed2_seqs
          (example_config\<lparr>high_freq_thre := 6\<rparr>) example_records 1) = []"
proof -
  have low: "\<forall>read \<in> set (map snd example_records).
       int (count_list (map snd example_records) read)
         < high_freq_thre (example_config\<lparr>high_freq_thre := 6\<rparr>)"
    by (simp add: example_records_def example_config_def)
  from generate_graph_exit [of enumerate_ed1_seqs enumerate_ed2_seqs
      "example_config\<lparr>high_freq_thre := 6\<rparr>" example_records 1] low
  show ?thesis by blast
qed


text \<open>
  Claim C6.  For a dataset with at least one high-frequency read, in edit-distance-1 or
  edit-distance-2 mode, \<open>generate_graph\<close> returns a graph in which two reads are
  adjacent exactly when one of them is a high-frequency read and the other is, among the
  enumerated neighbours of that read, a member of the candidate universe of the mode: the
  whole set of unique reads in edit-distance-1 mode, the reads of count below
  \<open>high_freq_thre\<close> in edit-distance-2 mode.
\<close>

theorem generate_graph_edges:
  assumes high: "\<exists>read \<in> set (map snd record_iterator).
        int (count_list (map snd record_iterator) read) \<ge> high_freq_thre cfg"
    and mode: "edit_dis = 1 \<or> edit_dis = 2"
  shows "\<exists>trace g unique_seqs.
     generate_graph enum1 enum2 cfg record_iterator edit_dis = (trace, Inr (g, unique_seqs)) \<and>
     (\<forall>n m. m \<in> set (neighbors g n) \<longleftrightarrow>
        spec_edge (if edit_dis = 1 then enum1 else enum2) cfg (map snd record_iterator) edit_dis n m \<or>
        spec_edge (if edit_dis = 1 then enum1 else enum2) cfg (map snd record_iterator) edit_dis m n)"
proof -
  let ?total = "map snd record_iterator"
  let ?high = "map fst (filter (\<lambda>(read, frequency). frequency \<ge> high_freq_thre cfg) (Counter ?total))"
  let ?low = "map fst (filter (\<lambda>(read, frequency). \<not> frequency \<ge> high_freq_thre cfg) (Counter ?total))"
  let ?g0 = "\<lparr>nodes = map fst (Counter ?total),
              count = (\<lambda>read. int (count_list ?total read)),
              flag = (\<lambda>read. False), neighbors = (\<lambda>read. [])\<rparr>"
  from high have ne: "?high \<noteq> []"
    unfolding high_freq_empty by (meson not_less)
  have nb: "m \<in> set (neighbors (add_edges_from ?g0 es) n) \<longleftrightarrow>
      (n, m) \<in> set es \<or> (m, n) \<in> set es" for es n m
    by (simp add: neighbors_add_edges_from)
  from mode show ?thesis
  proof
    assume ed: "edit_dis = 1"
    let ?es = "concat (map (real_ed1_seqs enum1 (first_occurrences ?total)) ?high)"
    have "generate_graph enum1 enum2 cfg record_iterator edit_dis =
        (map Dispatch ?high, Inr (add_edges_from ?g0 ?es, first_occurrences ?total))"
      unfolding generate_graph_unfold Let_def using ne ed by simp
    moreover have "\<forall>n m. m \<in> set (neighbors (add_edges_from ?g0 ?es) n) \<longleftrightarrow>
        spec_edge (if edit_dis = 1 then enum1 else enum2) cfg ?total edit_dis n m \<or>
        spec_edge (if edit_dis = 1 then enum1 else enum2) cfg ?total edit_dis m n"
      unfolding nb edges_ed1 using ed by simp
    ultimately show ?thesis by blast
  next
    assume ed: "edit_dis = 2"
    let ?es = "concat (map (real_ed2_seqs enum2 ?low) ?high)"
    have "generate_graph enum1 enum2 cfg record_iterator edit_dis =
        (map Dispatch ?high, Inr (add_edges_from ?g0 ?es, first_occurrences ?total))"
      unfolding generate_graph_unfold Let_def using ne ed by simp
    moreover have "\<forall>n m. m \<in> set (neighbors (add_edges_from ?g0 ?es) n) \<longleftrightarrow>
        spec_edge (if edit_dis = 1 then enum1 else enum2) cfg ?total edit_dis n m \<or>
        spec_edge (if edit_dis = 1 then enum1 else enum2) cfg ?total edit_dis m n"
      unfolding nb edges_ed2 using ed by simp
    ultimately show ?thesis by blast
  qed
qed

theorem generate_graph_edges_witness:
  "\<exists>trace g unique_seqs.
     generate_graph enumerate_ed1_seqs enumerate_ed2_seqs example_config example_records 1
       = (trace, Inr (g, unique_seqs)) \<and>
     ''AA'' \<in> set (neighbors g ''AC'') \<and> ''AC'' \<in> set (neighbors g ''AA'') \<and>
     ''TC'' \<notin> set (neighbors g ''AG'')"
proof -
  have high: "\<exists>read \<in> set (map snd example_records).
        int (count_list (map snd example_records) read) \<ge> high_freq_thre example_config"
    by (simp add: example_records_def example_config_def)
  have mode: "(1::int) = 1 \<or> (1::int) = 2" by simp
  have e1: "spec_edge enumerate_ed1_seqs example_config (map snd example_records) 1 ''AC'' ''AA''"
    by (simp add: spec_edge_def spec_universe_def example_records_def example_config_def)
  have e2: "\<not> spec_edge enumerate_ed1_seqs example_config (map snd example_records) 1 ''AG'' ''TC''"
    by (simp add: spec_edge_def spec_universe_def example_records_def example_config_def)
  have e3: "\<not> spec_edge enumerate_ed1_seqs example_config (map snd example_records) 1 ''TC'' ''AG''"
    by (simp add: spec_edge_def spec_universe_def example_records_def example_config_def)
  from generate_graph_edges [OF high mode, of enumerate_ed1_seqs enumerate_ed2_seqs]
  obtain trace g unique_seqs where
    r: "generate_graph enumerate_ed1_seqs enumerate_ed2_seqs example_config example_records 1
       = (trace, Inr (g, unique_seqs))"
    and nb: "\<And>n m. m \<in> set (neighbors g n) \<longleftrightarrow>
        spec_edge enumerate_ed1_seqs example_config (map snd example_records) 1 n m \<or>
        spec_edge enumerate_ed1_seqs example_config (map snd example_records) 1 m n"
    by auto
  from nb e1 e2 e3 have "''AA'' \<in> set (neighbors g ''AC'') \<and> ''AC'' \<in> set (neighbors g ''AA'') \<and>
     ''TC'' \<notin> set (neighbors g ''AG'')" by blast
  with r show ?thesis by blast
qed

text \<open>
  Claim C7.  The claim is that \<open>extract_isolated_negatives\<close> returns one row per node of
  degree 0 and \<open>count >= high_freq_thre\<close>, and the empty table, without failing, on a
  graph without nodes of degree 0 such as a connected graph.  The local variable
  \<open>isolates\<close> is assigned only when the graph is not connected.  On the star component,
  which is connected and has no node of degree 0, \<open>len(isolates)\<close> raises
  \<open>UnboundLocalError\<close>; so it does on the graph of a single high-frequency read, which
  is connected and whose node has degree 0.
\<close>

theorem extract_isolated_negatives_connected:
  "is_connected star = Inr True \<and> isolates_of star = [] \<and>
   extract_isolated_negatives example_config star 1 = Inl UnboundLocalError \<and>
   is_connected single_read = Inr True \<and> isolates_of single_read = [''ACGT''] \<and>
   count single_read ''ACGT'' \<ge> high_freq_thre example_config \<and>
   extract_isolated_negatives example_config single_read 1 = Inl UnboundLocalError"
  by (simp add: extract_isolated_negatives_def is_connected_def plain_bfs_def expand_def
      star_def single_read_def example_config_def bind_def isolates_of_def degree_def)

subsection \<open>The scoring variant\<close>

lemma sort_key_hd_min:
  assumes "sort_key f xs = y # ys"
  shows "y \<in> set xs \<and> (\<forall>x \<in> set xs. f y \<le> f x)"
proof -
  have s: "set (sort_key f xs) = set xs" by simp
  have "sorted (map f (sort_key f xs))" by (rule sorted_sort_key)
  with assms have "\<forall>z \<in> set ys. f y \<le> f z" by simp
  moreover from s assms have "set xs = insert y (set ys)" by simp
  ultimately show ?thesis by auto
qed

lemma nei_degree_count_hd:
  assumes "nei_degree_count g node = (first_nei, tt, first_nei_count) # rest"
  shows "first_nei \<in> set (neighbors g node) \<and> first_nei_count = count g first_nei \<and>
         (\<forall>nei \<in> set (neighbors g node). score g nei \<le> score g first_nei)"
proof -
  let ?xs = "map (\<lambda>nei. (nei, score g nei, count g nei)) (neighbors g node)"
  from sort_key_hd_min [OF assms [unfolded nei_degree_count_def]]
  have m: "(first_nei, tt, first_nei_count) \<in> set ?xs"
    and le: "\<forall>x \<in> set ?xs. - fst (snd (first_nei, tt, first_nei_count)) \<le> - fst (snd x)"
    by simp_all
  from m have a: "first_nei \<in> set (neighbors g node)" "tt = score g first_nei"
    "first_nei_count = count g first_nei" by auto
  from le a(2) have "\<forall>nei \<in> set (neighbors g node). score g nei \<le> score g first_nei"
    by auto
  with a show ?thesis by simp
qed

lemma score_flag [simp]: "score (g\<lparr>flag := f\<rparr>) = score g"
  by (rule ext) (simp add: score_def)

lemma nei_degree_count_flag [simp]: "nei_degree_count (g\<lparr>flag := f\<rparr>) = nei_degree_count g"
  by (rule ext) (simp add: nei_degree_count_def)

lemma best_neighbor_flag [simp]: "best_neighbor (g\<lparr>flag := f\<rparr>) = best_neighbor g"
  by (rule ext) (simp add: best_neighbor_def)

lemma umi_row_ok_flag:
  "umi_row_ok cfg (g\<lparr>flag := f\<rparr>) row \<Longrightarrow> (\<And>n. flag g n \<Longrightarrow> f n) \<Longrightarrow> umi_row_ok cfg g row"
  by (auto simp: umi_row_ok_def)

lemma umi_visit_cases:
  assumes "umi_visit cfg node (df, g) = Inr (df', g')"
  shows "(df' = df \<and> g' = g) \<or>
         (\<exists>row. df' = df @ [row] \<and> g' = g\<lparr>flag := (flag g)(node := True)\<rparr> \<and>
                EndRead row = node \<and> umi_row_ok cfg g row)"
proof (cases "degree g node \<ge> 1 \<and> degree g node \<le> 4 \<and> count g node \<le> max_error_freq cfg
              \<and> \<not> flag g node")
  case False
  with assms show ?thesis by (auto simp: umi_visit_def Let_def)
next
  case elig: True
  show ?thesis
  proof (cases "nei_degree_count g node")
    case Nil
    with assms elig show ?thesis by (simp add: umi_visit_def Let_def)
  next
    case (Cons x rest)
    obtain first_nei tt first_nei_count where x: "x = (first_nei, tt, first_nei_count)"
      by (cases x)
    note hd = nei_degree_count_hd [OF Cons [unfolded x]]
    show ?thesis
    proof (cases "first_nei_count \<ge> high_freq_thre cfg")
      case False
      with assms elig Cons x show ?thesis by (simp add: umi_visit_def Let_def)
    next
      case True
      with assms elig Cons x obtain row where
        e: "err_type_classification
              \<lparr>StartRead = first_nei, StartReadCount = first_nei_count,
               StartDegree = degree g first_nei,
               EndRead = node, EndReadCount = count g node,
               EndDegree = degree g node\<rparr> = Inr row"
        and r: "df' = df @ [row]" "g' = g\<lparr>flag := (flag g)(node := True)\<rparr>"
        by (auto simp: umi_visit_def Let_def bind_Inr_iff)
      from err_type_classification_line [OF e]
      have f: "StartRead row = first_nei" "EndRead row = node"
        by (auto simp: line.truncate_def)
      have "umi_row_ok cfg g row"
        using elig hd True Cons x f by (simp add: umi_row_ok_def best_neighbor_def)
      with r f show ?thesis by blast
    qed
  qed
qed

lemma umi_visit_all_rows:
  "umi_visit_all cfg ns (df, g) = Inr (df', g') \<Longrightarrow>
   \<exists>rows. df' = df @ rows \<and>
     g' = g\<lparr>flag := (\<lambda>node. flag g node \<or> node \<in> EndRead ` set rows)\<rparr> \<and>
     (\<forall>row \<in> set rows. EndRead row \<in> set ns \<and> umi_row_ok cfg g row)"
proof (induction ns arbitrary: df g)
  case Nil
  then show ?case by simp
next
  case (Cons node rest)
  from Cons.prems obtain df1 g1 where
    v: "umi_visit cfg node (df, g) = Inr (df1, g1)"
    and r: "umi_visit_all cfg rest (df1, g1) = Inr (df', g')"
    by (auto simp: bind_Inr_iff)
  from Cons.IH [OF r] obtain rows where
    d: "df' = df1 @ rows"
    and g': "g' = g1\<lparr>flag := (\<lambda>n. flag g1 n \<or> n \<in> EndRead ` set rows)\<rparr>"
    and ok: "\<forall>row \<in> set rows. EndRead row \<in> set rest \<and> umi_row_ok cfg g1 row"
    by blast
  from umi_visit_cases [OF v] show ?case
  proof
    assume "df1 = df \<and> g1 = g"
    with d g' ok have "df' = df @ rows \<and>
       g' = g\<lparr>flag := (\<lambda>node. flag g node \<or> node \<in> EndRead ` set rows)\<rparr> \<and>
       (\<forall>row \<in> set rows. EndRead row \<in> set (node # rest) \<and> umi_row_ok cfg g row)"
      by simp
    then show ?thesis by blast
  next
    assume "\<exists>row. df1 = df @ [row] \<and> g1 = g\<lparr>flag := (flag g)(node := True)\<rparr> \<and>
                EndRead row = node \<and> umi_row_ok cfg g row"
    then obtain row where df1: "df1 = df @ [row]"
      and g1: "g1 = g\<lparr>flag := (flag g)(node := True)\<rparr>"
      and er: "EndRead row = node" and rok: "umi_row_ok cfg g row" by blast
    have fl: "(\<lambda>n. flag g1 n \<or> n \<in> EndRead ` set rows) =
        (\<lambda>n. flag g n \<or> n \<in> EndRead ` set (row # rows))"
      by (rule ext) (auto simp: g1 er)
    have a: "df' = df @ (row # rows)" by (simp add: d df1)
    have b: "g' = g\<lparr>flag := (\<lambda>n. flag g n \<or> n \<in> EndRead ` set (row # rows))\<rparr>"
      unfolding g' fl by (simp add: g1)
    have c: "\<forall>r \<in> set (row # rows). EndRead r \<in> set (node # rest) \<and> umi_row_ok cfg g r"
    proof
      fix r assume "r \<in> set (row # rows)"
      then consider "r = row" | "r \<in> set rows" by auto
      then show "EndRead r \<in> set (node # rest) \<and> umi_row_ok cfg g r"
      proof cases
        case 1
        with er rok show ?thesis by simp
      next
        case 2
        with ok have "EndRead r \<in> set rest" and "umi_row_ok cfg g1 r" by simp_all
        moreover from this(2) have "umi_row_ok cfg g r"
          unfolding g1 by (rule umi_row_ok_flag) simp
        ultimately show ?thesis by simp
      qed
    qed
    from a b c show ?thesis by blast
  qed
qed

lemma umi_subgraph_ok:
  assumes "umi_subgraph cfg g df = Inr (df', g')"
  shows "\<exists>rows. df' = df @ rows \<and> umi_pass_ok cfg g rows g'"
proof (cases "edges g = []")
  case True
  with assms have "df' = df @ [] \<and> umi_pass_ok cfg g [] g'"
    by (simp add: umi_subgraph_def umi_pass_ok_def)
  then show ?thesis by blast
next
  case False
  with assms have "umi_visit_all cfg (nodes g) (df, g) = Inr (df', g')"
    by (simp add: umi_subgraph_def)
  from umi_visit_all_rows [OF this] show ?thesis
    by (auto simp: umi_pass_ok_def)
qed

lemma umi_subgraphs_ok:
  "umi_subgraphs cfg gs df = Inr (df', gs') \<Longrightarrow>
   \<exists>rowss. df' = df @ concat rowss \<and> length rowss = length gs \<and> length gs' = length gs \<and>
     (\<forall>i < length gs. umi_pass_ok cfg (gs ! i) (rowss ! i) (gs' ! i))"
proof (induction gs arbitrary: df df' gs')
  case Nil
  then have "df' = df @ concat [] \<and> gs' = []" by simp
  then show ?case by auto
next
  case (Cons g gs)
  from Cons.prems obtain df1 g1 df2 rest1 where
    s: "umi_subgraph cfg g df = Inr (df1, g1)"
    and r: "umi_subgraphs cfg gs df1 = Inr (df2, rest1)"
    and e: "df' = df2" "gs' = g1 # rest1"
    by (auto simp: bind_Inr_iff)
  from umi_subgraph_ok [OF s] obtain rows where
    rows: "df1 = df @ rows" "umi_pass_ok cfg g rows g1" by blast
  from Cons.IH [OF r] obtain rowss where
    rowss: "df2 = df1 @ concat rowss" "length rowss = length gs" "length rest1 = length gs"
    "\<forall>i < length gs. umi_pass_ok cfg (gs ! i) (rowss ! i) (rest1 ! i)" by blast
  have "df' = df @ concat (rows # rowss)" by (simp add: e rows rowss)
  moreover have "length (rows # rowss) = length (g # gs)" "length gs' = length (g # gs)"
    by (simp_all add: e rowss)
  moreover have "\<forall>i < length (g # gs).
      umi_pass_ok cfg ((g # gs) ! i) ((rows # rowss) ! i) (gs' ! i)"
    using rows(2) rowss(4) by (auto simp: e nth_Cons split: nat.splits)
  ultimately show ?case by blast
qed

lemma umi_pass_ok_unvisited:
  assumes "umi_pass_ok cfg g rows g'" and "\<not> flag g node"
    and "\<forall>nei. best_neighbor g node = Some nei \<longrightarrow> count g nei < high_freq_thre cfg"
  shows "\<not> flag g' node"
proof
  assume "flag g' node"
  with assms(1,2) obtain row where row: "row \<in> set rows" "EndRead row = node"
    by (auto simp: umi_pass_ok_def)
  with assms(1) have "umi_row_ok cfg g row" by (simp add: umi_pass_ok_def)
  with row(2) have "best_neighbor g node = Some (StartRead row)"
    "count g (StartRead row) \<ge> high_freq_thre cfg" by (auto simp: umi_row_ok_def)
  with assms(3) show False by fastforce
qed

lemma umi_component_pass:
  "\<exists>g'. extract_umi_genuine_errs example_config [umi_component] =
     Inr ([\<lparr>StartRead = ''AC'', StartReadCount = 6, StartDegree = 2,
            EndRead = ''AA'', EndReadCount = 1, EndDegree = 2,
            ErrorType = ''C-A'', ErrorPosition = 1, StartErrKmer = ''AC'',
            EndErrKmer = ''AA''\<rparr>], [g'])"
  by (simp add: extract_umi_genuine_errs_def umi_subgraph_def edges_def umi_component_def
      example_config_def umi_visit_def bind_def degree_def nei_degree_count_def score_def
      err_type_classification_def classify_equal_def
      py_index_def py_slice_def py_bound_def py_slice_from_def annotate_def
      line.extend_def new_line.fields_def Let_def)

text \<open>
  Claim C10.  In \<open>extract_umi_genuine_errs\<close> the flag of a node is set only together
  with the emission of a row for it: after a completed run, in every subgraph a node is
  flagged exactly when it was flagged before or is the child of a row emitted for that
  subgraph; every such row is for a node that was not flagged, of degree 1 to 4 and of
  count at most \<open>max_error_freq\<close>, with the neighbour of maximal score as parent, of
  count at least \<open>high_freq_thre\<close>.  Hence a node that was not flagged and whose
  neighbour of maximal score has a count below \<open>high_freq_thre\<close> is not flagged after
  the run.  The counts and degrees of the neighbours are taken below \<open>2^52\<close>, where
  the floating-point score is exact.
\<close>

theorem extract_umi_genuine_errs_flags:
  assumes "\<forall>sub_graph \<in> set subgraphs. float_exact sub_graph"
    and "extract_umi_genuine_errs cfg subgraphs = Inr (genuine_df, subgraphs')"
  shows "\<exists>rowss. genuine_df = concat rowss \<and> length rowss = length subgraphs \<and>
     length subgraphs' = length subgraphs \<and>
     (\<forall>i < length subgraphs.
        umi_pass_ok cfg (subgraphs ! i) (rowss ! i) (subgraphs' ! i) \<and>
        (\<forall>node. \<not> flag (subgraphs ! i) node \<and>
           (\<forall>nei. best_neighbor (subgraphs ! i) node = Some nei \<longrightarrow>
                  count (subgraphs ! i) nei < high_freq_thre cfg) \<longrightarrow>
           \<not> flag (subgraphs' ! i) node))"
proof -
  from assms(2) have "umi_subgraphs cfg subgraphs [] = Inr (genuine_df, subgraphs')"
    by (simp add: extract_umi_genuine_errs_def)
  from umi_subgraphs_ok [OF this] obtain rowss where
    r: "genuine_df = concat rowss" "length rowss = length subgraphs"
    "length subgraphs' = length subgraphs"
    and ok: "\<forall>i < length subgraphs. umi_pass_ok cfg (subgraphs ! i) (rowss ! i) (subgraphs' ! i)"
    by auto
  have "\<forall>i < length subgraphs.
        umi_pass_ok cfg (subgraphs ! i) (rowss ! i) (subgraphs' ! i) \<and>
        (\<forall>node. \<not> flag (subgraphs ! i) node \<and>
           (\<forall>nei. best_neighbor (subgraphs ! i) node = Some nei \<longrightarrow>
                  count (subgraphs ! i) nei < high_freq_thre cfg) \<longrightarrow>
           \<not> flag (subgraphs' ! i) node)"
    using ok umi_pass_ok_unvisited by blast
  with r show ?thesis by blast
qed


text \<open>In \<open>umi_component\<close> a row is emitted for \<open>AA\<close>, which is flagged; the neighbour of
  maximal score of \<open>TG\<close> is \<open>TT\<close>, of count 4, and \<open>TG\<close> stays unflagged.\<close>

theorem extract_umi_genuine_errs_flags_witness:
  "float_exact umi_component \<and>
   (\<exists>genuine_df g'.
     extract_umi_genuine_errs example_config [umi_component] = Inr (genuine_df, [g']) \<and>
     map EndRead genuine_df = [''AA''] \<and>
     best_neighbor umi_component ''TG'' = Some ''TT'' \<and>
     flag g' ''AA'' \<and> \<not> flag g' ''TG'')"
proof -
  from umi_component_pass obtain genuine_df g' where
    r: "extract_umi_genuine_errs example_config [umi_component] = Inr (genuine_df, [g'])"
    and df: "map EndRead genuine_df = [''AA'']"
    by auto
  have b: "best_neighbor umi_component ''TG'' = Some ''TT''"
    by (simp add: best_neighbor_def nei_degree_count_def score_def degree_def umi_component_def)
  have low: "\<forall>nei. best_neighbor umi_component ''TG'' = Some nei \<longrightarrow>
      count umi_component nei < high_freq_thre example_config"
    by (simp add: b) (simp add: umi_component_def example_config_def)
  have nf: "\<not> flag umi_component ''TG''" by (simp add: umi_component_def)
  have fe: "\<forall>sub_graph \<in> set [umi_component]. float_exact sub_graph"
    by (simp add: float_exact_def umi_component_def degree_def)
  from extract_umi_genuine_errs_flags [OF fe r] obtain rowss where
    c: "genuine_df = concat rowss" and l: "length rowss = length [umi_component]"
    and ok: "\<forall>i < length [umi_component].
        umi_pass_ok example_config ([umi_component] ! i) (rowss ! i) ([g'] ! i) \<and>
        (\<forall>node. \<not> flag ([umi_component] ! i) node \<and>
           (\<forall>nei. best_neighbor ([umi_component] ! i) node = Some nei \<longrightarrow>
                  count ([umi_component] ! i) nei < high_freq_thre example_config) \<longrightarrow>
           \<not> flag ([g'] ! i) node)"
    by blast
  from l obtain rows where rowss: "rowss = [rows]"
    by (cases rowss) auto
  from ok have ok0: "umi_pass_ok example_config umi_component (rowss ! 0) g'"
    and un: "\<And>node. \<not> flag umi_component node \<Longrightarrow>
           (\<forall>nei. best_neighbor umi_component node = Some nei \<longrightarrow>
                  count umi_component nei < high_freq_thre example_config) \<Longrightarrow>
           \<not> flag g' node"
    by auto
  from un [OF nf low] have tg: "\<not> flag g' ''TG''" .
  from c rowss have "rows = genuine_df" by simp
  with ok0 rowss df have "flag g' ''AA''"
    by (auto simp: umi_pass_ok_def)
  with r df b tg have "\<exists>genuine_df g'.
     extract_umi_genuine_errs example_config [umi_component] = Inr (genuine_df, [g']) \<and>
     map EndRead genuine_df = [''AA''] \<and>
     best_neighbor umi_component ''TG'' = Some ''TT'' \<and>
     flag g' ''AA'' \<and> \<not> flag g' ''TG''" by auto
  with fe show ?thesis by simp
qed

end
